theory Spec2Isabelle
  imports Main "HOL-Library.Monad_Syntax"
begin

section \<open>Data model of jsmnreader.h\<close>

text \<open>
  The token type enumeration. A token cell that was never assigned a type holds an
  indeterminate value; every \<^verbatim>\<open>switch\<close> and comparison of the source treats any value
  other than the four named ones alike, so \<open>JSMN_UNDEFINED\<close> stands for all of them.
\<close>

datatype jsmntype_t = JSMN_UNDEFINED | JSMN_OBJECT | JSMN_ARRAY | JSMN_STRING | JSMN_PRIMITIVE

text \<open>The struct \<^verbatim>\<open>jsmntok_t\<close> (built without \<^verbatim>\<open>JSMN_PARENT_LINKS\<close>): four C ints.\<close>

record jsmntok =
  tok_type :: jsmntype_t
  tok_start :: int
  tok_end :: int
  tok_size :: int

text \<open>
  The struct \<^verbatim>\<open>jsmnreader_obj\<close>. The text buffer is a list of bytes. The pointer
  \<open>tokens\<close> is \<open>None\<close> when it is null and \<open>Some cells\<close> when it points to a block
  holding \<open>cells\<close>; the length of the list is the size of the allocated block, which
  the field \<open>tokens_count\<close> only describes. Unsigned counters are natural numbers: every
  counter of the reader stays below the token count plus two, far from \<open>2 ^ 32\<close>; only
  the value of \<^verbatim>\<open>(unsigned) -1\<close> is written out.
\<close>

record jsmnreader_obj =
  txt_buf :: string
  txt_size :: nat
  tokens :: "jsmntok list option"
  tokens_count :: nat

definition NOT_FOUND :: nat where
  "NOT_FOUND = 4294967295"

definition dquote :: char where
  "dquote = CHR 0x22"

definition bslash :: char where
  "bslash = CHR 0x5C"

definition NUL :: char where
  "NUL = CHR 0x00"

text \<open>Conversion of a C int to unsigned int, as at the call of \<^verbatim>\<open>jsmnreader_extract\<close>.\<close>

definition uint_of :: "int \<Rightarrow> nat" where
  "uint_of x = nat (x mod 4294967296)"

text \<open>
  Memory reads. A read outside the allocated block is undefined behaviour in C; the
  model makes it the value \<open>None\<close>, which every caller passes on.
\<close>

definition char_at :: "string \<Rightarrow> nat \<Rightarrow> char option" where
  "char_at s i = (if i < length s then Some (s ! i) else None)"

definition cells :: "jsmnreader_obj \<Rightarrow> jsmntok list" where
  "cells reader = (case tokens reader of None \<Rightarrow> [] | Some ts \<Rightarrow> ts)"

definition tok_at :: "jsmnreader_obj \<Rightarrow> nat \<Rightarrow> jsmntok option" where
  "tok_at reader i = (if i < length (cells reader) then Some (cells reader ! i) else None)"

section \<open>Tokenizer\<close>

text \<open>
  The struct \<^verbatim>\<open>jsmn_parser\<close>. The fields \<open>pos\<close> and \<open>toknext\<close> are unsigned and bounded
  by the buffer length and the number of tokens; \<open>toksuper\<close> is a C int.
\<close>

record jsmn_parser =
  pos :: nat
  toknext :: nat
  toksuper :: int

definition JSMN_SUCCESS :: int where
  "JSMN_SUCCESS = 0"

definition JSMN_ERROR_NOMEM :: int where
  "JSMN_ERROR_NOMEM = - 1"

definition JSMN_ERROR_INVAL :: int where
  "JSMN_ERROR_INVAL = - 2"

definition JSMN_ERROR_PART :: int where
  "JSMN_ERROR_PART = - 3"

definition jsmn_init :: jsmn_parser where
  "jsmn_init = \<lparr>pos = 0, toknext = 0, toksuper = - 1\<rparr>"

text \<open>
  The pointer that \<^verbatim>\<open>jsmn_alloc_token\<close> returns: null, the address of a cell of the
  token array, or a pointer that must not be used. The last one is the uninitialised
  local \<^verbatim>\<open>tok\<close> that the function returns in sizing mode once \<open>toknext\<close> has reached
  \<open>num_tokens\<close>, and also the address \<^verbatim>\<open>&tokens[toknext]\<close> when the block is shorter
  than \<open>num_tokens\<close> says.
\<close>

datatype tokptr = Null_ptr | Cell nat | Wild_ptr

definition jsmn_alloc_token ::
  "jsmn_parser \<Rightarrow> jsmntok list \<Rightarrow> nat \<Rightarrow> bool \<Rightarrow> tokptr \<times> jsmn_parser \<times> jsmntok list" where
  "jsmn_alloc_token parser toks num_tokens parsemode_sizecheck =
     (if \<not> parsemode_sizecheck \<and> toknext parser \<ge> num_tokens then (Null_ptr, parser, toks)
      else if toknext parser < num_tokens then
        (if toknext parser < length toks then
           (Cell (toknext parser),
            parser\<lparr>toknext := toknext parser + 1\<rparr>,
            toks[toknext parser :=
              (toks ! toknext parser)\<lparr>tok_start := - 1, tok_end := - 1, tok_size := 0\<rparr>])
         else (Wild_ptr, parser, toks))
      else (Wild_ptr, parser, toks))"

definition jsmn_fill_token :: "jsmntok \<Rightarrow> jsmntype_t \<Rightarrow> int \<Rightarrow> int \<Rightarrow> jsmntok" where
  "jsmn_fill_token token ty s e =
     token\<lparr>tok_type := ty, tok_start := s, tok_end := e, tok_size := 0\<rparr>"

text \<open>
  The scanning loop of \<^verbatim>\<open>jsmn_parse_primitive\<close>, from position \<open>p\<close>: the position of
  the delimiter that ends the primitive (the label \<^verbatim>\<open>found\<close>), or the error code. The
  parser reads \<^verbatim>\<open>js[pos]\<close> only for \<open>pos < len\<close>. The test \<^verbatim>\<open>js[pos] < 32 || js[pos] >= 127\<close>
  holds of the same bytes whether \<^verbatim>\<open>char\<close> is signed or not.
\<close>

function prim_scan :: "string \<Rightarrow> nat \<Rightarrow> nat \<Rightarrow> int + nat" where
  "prim_scan js len p =
     (if p < len \<and> js ! p \<noteq> NUL then
        (if js ! p \<in> {CHR 0x09, CHR 0x0D, CHR 0x0A, CHR '' '', CHR '','', CHR '']'', CHR ''}''}
         then Inr p
         else if (of_char (js ! p) :: nat) < 32 \<or> (of_char (js ! p) :: nat) \<ge> 127
         then Inl JSMN_ERROR_INVAL
         else prim_scan js len (p + 1))
      else Inl JSMN_ERROR_PART)"
  by pat_completeness auto
termination
  by (relation "measure (\<lambda>(js, len, p). len - p)") auto

declare prim_scan.simps [simp del]

text \<open>
  \<^verbatim>\<open>jsmn_parse_primitive\<close>. It is called at a character that is no delimiter, so the
  delimiter found lies after \<open>start\<close> and \<^verbatim>\<open>parser->pos--\<close> does not wrap.
\<close>

definition jsmn_parse_primitive ::
  "jsmn_parser \<Rightarrow> string \<Rightarrow> nat \<Rightarrow> jsmntok list option \<Rightarrow> nat \<Rightarrow> bool
     \<Rightarrow> (int \<times> jsmn_parser \<times> jsmntok list option) option" where
  "jsmn_parse_primitive parser js len tks num_tokens parsemode_sizecheck =
     (let start = pos parser in
      case prim_scan js len start of
        Inl e \<Rightarrow> Some (e, parser\<lparr>pos := start\<rparr>, tks)
      | Inr d \<Rightarrow>
          (case tks of
             None \<Rightarrow> Some (0, parser\<lparr>pos := d - 1\<rparr>, None)
           | Some toks \<Rightarrow>
               (case jsmn_alloc_token (parser\<lparr>pos := d\<rparr>) toks num_tokens parsemode_sizecheck of
                  (Null_ptr, parser', toks') \<Rightarrow>
                    Some (JSMN_ERROR_NOMEM, parser'\<lparr>pos := start\<rparr>, Some toks')
                | (Wild_ptr, parser', toks') \<Rightarrow> None
                | (Cell k, parser', toks') \<Rightarrow>
                    Some (0, parser'\<lparr>pos := d - 1\<rparr>,
                          Some (toks'[k := jsmn_fill_token (toks' ! k) JSMN_PRIMITIVE
                                            (int start) (int d)])))))"

text \<open>
  The inner loop of the \<^verbatim>\<open>\u\<close> case of \<^verbatim>\<open>jsmn_parse_string\<close>: up to four hexadecimal
  digits from position \<open>p\<close>, with the loop counter \<open>i\<close>; the position after them.
\<close>

definition is_hex :: "char \<Rightarrow> bool" where
  "is_hex c = (let n = (of_char c :: nat) in
     (48 \<le> n \<and> n \<le> 57) \<or> (65 \<le> n \<and> n \<le> 70) \<or> (97 \<le> n \<and> n \<le> 102))"

function hex_scan :: "string \<Rightarrow> nat \<Rightarrow> nat \<Rightarrow> nat \<Rightarrow> int + nat" where
  "hex_scan js len i p =
     (if i < 4 \<and> p < len \<and> js ! p \<noteq> NUL then
        (if \<not> is_hex (js ! p) then Inl JSMN_ERROR_INVAL
         else hex_scan js len (i + 1) (p + 1))
      else Inr p)"
  by pat_completeness auto
termination
  by (relation "measure (\<lambda>(js, len, i, p). 4 - i)") auto

declare hex_scan.simps [simp del]

lemma hex_scan_ge: "hex_scan js len i p = Inr q \<Longrightarrow> p \<le> q"
proof (induction js len i p rule: hex_scan.induct)
  case (1 js len i p)
  show ?case
  proof (cases "i < 4 \<and> p < len \<and> js ! p \<noteq> NUL")
    case True
    from "1.prems" True have ok: "is_hex (js ! p)"
      and again: "hex_scan js len (i + 1) (p + 1) = Inr q"
      by (subst (asm) hex_scan.simps, simp split: if_splits)+
    from "1.IH" [OF True _ again] ok have "p + 1 \<le> q" by simp
    then show ?thesis by simp
  next
    case False
    with "1.prems" show ?thesis
      by (subst (asm) hex_scan.simps) auto
  qed
qed

text \<open>
  The scanning loop of \<^verbatim>\<open>jsmn_parse_string\<close>, from position \<open>p\<close> (the first one after the
  opening quote): the position of the closing quote, or the error code.
\<close>

function string_scan :: "string \<Rightarrow> nat \<Rightarrow> nat \<Rightarrow> int + nat" where
  "string_scan js len p =
     (if p < len \<and> js ! p \<noteq> NUL then
        (if js ! p = dquote then Inr p
         else if js ! p = bslash \<and> p + 1 < len then
           (if js ! (p + 1) \<in> {dquote, CHR ''/'', bslash, CHR ''b'', CHR ''f'', CHR ''r'',
                                CHR ''n'', CHR ''t''}
            then string_scan js len (p + 2)
            else if js ! (p + 1) = CHR ''u'' then
              (case hex_scan js len 0 (p + 2) of
                 Inl e \<Rightarrow> Inl e
               | Inr q \<Rightarrow> string_scan js len q)
            else Inl JSMN_ERROR_INVAL)
         else string_scan js len (p + 1))
      else Inl JSMN_ERROR_PART)"
  by pat_completeness auto
termination
  by (relation "measure (\<lambda>(js, len, p). len - p)") (auto dest: hex_scan_ge)

declare string_scan.simps [simp del]

definition jsmn_parse_string ::
  "jsmn_parser \<Rightarrow> string \<Rightarrow> nat \<Rightarrow> jsmntok list option \<Rightarrow> nat \<Rightarrow> bool
     \<Rightarrow> (int \<times> jsmn_parser \<times> jsmntok list option) option" where
  "jsmn_parse_string parser js len tks num_tokens parsemode_sizecheck =
     (let start = pos parser in
      case string_scan js len (start + 1) of
        Inl e \<Rightarrow> Some (e, parser\<lparr>pos := start\<rparr>, tks)
      | Inr q \<Rightarrow>
          (case tks of
             None \<Rightarrow> Some (0, parser\<lparr>pos := q\<rparr>, None)
           | Some toks \<Rightarrow>
               (case jsmn_alloc_token (parser\<lparr>pos := q\<rparr>) toks num_tokens parsemode_sizecheck of
                  (Null_ptr, parser', toks') \<Rightarrow>
                    Some (JSMN_ERROR_NOMEM, parser'\<lparr>pos := start\<rparr>, Some toks')
                | (Wild_ptr, parser', toks') \<Rightarrow> None
                | (Cell k, parser', toks') \<Rightarrow>
                    Some (0, parser',
                          Some (toks'[k := jsmn_fill_token (toks' ! k) JSMN_STRING
                                            (int start + 1) (int q)])))))"

text \<open>
  The main loop of \<^verbatim>\<open>jsmn_parse\<close>. One pass of the loop body either leaves the function
  with a return value or goes on with the next character; in both cases the parser and
  the token array are as the body left them.
\<close>

datatype parse_step =
  Return int jsmn_parser "jsmntok list option"
| Continue jsmn_parser "jsmntok list option" int

text \<open>A token that was opened and not closed: \<^verbatim>\<open>token->start != -1 && token->end == -1\<close>.\<close>

definition is_open :: "jsmntok \<Rightarrow> bool" where
  "is_open t = (tok_start t \<noteq> - 1 \<and> tok_end t = - 1)"

definition is_container :: "jsmntok \<Rightarrow> bool" where
  "is_container t = (tok_type t = JSMN_ARRAY \<or> tok_type t = JSMN_OBJECT)"

text \<open>
  The backward loops \<^verbatim>\<open>for (i = k - 1; i >= 0; i--)\<close>: the first \<open>i\<close> below \<open>k\<close>, counting
  down, at which the loop breaks.
\<close>

fun find_open :: "jsmntok list \<Rightarrow> nat \<Rightarrow> nat option" where
  "find_open toks k =
     (if k = 0 then None
      else if is_open (toks ! (k - 1)) then Some (k - 1)
      else find_open toks (k - 1))"

declare find_open.simps [simp del]

fun find_open_container :: "jsmntok list \<Rightarrow> nat \<Rightarrow> nat option" where
  "find_open_container toks k =
     (if k = 0 then None
      else if is_container (toks ! (k - 1)) \<and> is_open (toks ! (k - 1)) then Some (k - 1)
      else find_open_container toks (k - 1))"

declare find_open_container.simps [simp del]

text \<open>The statement \<^verbatim>\<open>tokens[parser->toksuper].size++\<close> under its guard.\<close>

definition bump_super :: "jsmn_parser \<Rightarrow> jsmntok list option \<Rightarrow> jsmntok list option" where
  "bump_super parser tks =
     (case tks of
        None \<Rightarrow> None
      | Some toks \<Rightarrow>
          (if toksuper parser \<noteq> - 1
           then Some (toks[nat (toksuper parser) :=
                  (toks ! nat (toksuper parser))
                    \<lparr>tok_size := tok_size (toks ! nat (toksuper parser)) + 1\<rparr>])
           else Some toks))"

text \<open>The cases \<^verbatim>\<open>'{'\<close> and \<^verbatim>\<open>'['\<close>.\<close>

definition parse_open ::
  "char \<Rightarrow> nat \<Rightarrow> bool \<Rightarrow> jsmn_parser \<Rightarrow> jsmntok list option \<Rightarrow> int \<Rightarrow> parse_step option" where
  "parse_open c num_tokens parsemode_sizecheck parser tks count =
     (case tks of
        None \<Rightarrow> Some (Continue parser None (count + 1))
      | Some toks \<Rightarrow>
          (case jsmn_alloc_token parser toks num_tokens parsemode_sizecheck of
             (Null_ptr, parser1, toks1) \<Rightarrow> Some (Return JSMN_ERROR_NOMEM parser1 (Some toks1))
           | (Wild_ptr, parser1, toks1) \<Rightarrow> None
           | (Cell k, parser1, toks1) \<Rightarrow>
               (if toksuper parser1 \<noteq> - 1
                   \<and> tok_type (toks1 ! nat (toksuper parser1)) = JSMN_OBJECT
                then Some (Return JSMN_ERROR_INVAL parser1 (Some toks1))
                else
                  (let toks2 = the (bump_super parser1 (Some toks1));
                       toks3 = toks2[k := (toks2 ! k)
                                 \<lparr>tok_type := (if c = CHR ''{'' then JSMN_OBJECT else JSMN_ARRAY),
                                  tok_start := int (pos parser1)\<rparr>]
                   in Some (Continue (parser1\<lparr>toksuper := int (toknext parser1) - 1\<rparr>)
                              (Some toks3) (count + 1))))))"

text \<open>The cases \<^verbatim>\<open>'}'\<close> and \<^verbatim>\<open>']'\<close> (the branch without parent links).\<close>

definition parse_close ::
  "char \<Rightarrow> jsmn_parser \<Rightarrow> jsmntok list option \<Rightarrow> int \<Rightarrow> parse_step option" where
  "parse_close c parser tks count =
     (case tks of
        None \<Rightarrow> Some (Continue parser None count)
      | Some toks \<Rightarrow>
          (case find_open toks (toknext parser) of
             None \<Rightarrow> Some (Return JSMN_ERROR_INVAL parser (Some toks))
           | Some i \<Rightarrow>
               (if tok_type (toks ! i) \<noteq> (if c = CHR ''}'' then JSMN_OBJECT else JSMN_ARRAY)
                then Some (Return JSMN_ERROR_INVAL parser (Some toks))
                else
                  (let toks1 = toks[i := (toks ! i)\<lparr>tok_end := int (pos parser) + 1\<rparr>]
                   in case find_open toks1 (i + 1) of
                        None \<Rightarrow> Some (Continue (parser\<lparr>toksuper := - 1\<rparr>) (Some toks1) count)
                      | Some j \<Rightarrow>
                          Some (Continue (parser\<lparr>toksuper := int j\<rparr>) (Some toks1) count)))))"

text \<open>The case \<^verbatim>\<open>','\<close>.\<close>

definition parse_comma :: "jsmn_parser \<Rightarrow> jsmntok list option \<Rightarrow> jsmn_parser" where
  "parse_comma parser tks =
     (case tks of
        None \<Rightarrow> parser
      | Some toks \<Rightarrow>
          (if toksuper parser \<noteq> - 1 \<and> \<not> is_container (toks ! nat (toksuper parser))
           then (case find_open_container toks (toknext parser) of
                   None \<Rightarrow> parser
                 | Some i \<Rightarrow> parser\<lparr>toksuper := int i\<rparr>)
           else parser))"

text \<open>The test that a primitive does not stand where a key is expected.\<close>

definition prim_is_key :: "jsmn_parser \<Rightarrow> jsmntok list option \<Rightarrow> bool" where
  "prim_is_key parser tks =
     (case tks of
        None \<Rightarrow> False
      | Some toks \<Rightarrow>
          toksuper parser \<noteq> - 1
          \<and> (tok_type (toks ! nat (toksuper parser)) = JSMN_OBJECT
             \<or> (tok_type (toks ! nat (toksuper parser)) = JSMN_STRING
                \<and> tok_size (toks ! nat (toksuper parser)) \<noteq> 0)))"

text \<open>
  The characters at which a primitive starts: the case labels \<^verbatim>\<open>'-'\<close>, the ten digits
  (the codes 48 to 57), \<^verbatim>\<open>'t'\<close>, \<^verbatim>\<open>'f'\<close> and \<^verbatim>\<open>'n'\<close>.
\<close>

definition isdigit :: "char \<Rightarrow> bool" where
  "isdigit c = (48 \<le> (of_char c :: nat) \<and> (of_char c :: nat) \<le> 57)"

definition prim_start :: "char \<Rightarrow> bool" where
  "prim_start c = (c = CHR ''-'' \<or> isdigit c \<or> c = CHR ''t'' \<or> c = CHR ''f'' \<or> c = CHR ''n'')"

text \<open>The body of the loop: the \<^verbatim>\<open>switch\<close> on the character at \<open>pos\<close>.\<close>

definition jsmn_parse_char ::
  "string \<Rightarrow> nat \<Rightarrow> nat \<Rightarrow> bool \<Rightarrow> jsmn_parser \<Rightarrow> jsmntok list option \<Rightarrow> int
     \<Rightarrow> parse_step option" where
  "jsmn_parse_char js len num_tokens parsemode_sizecheck parser tks count =
     (let c = js ! pos parser in
      if c = CHR ''{'' \<or> c = CHR ''['' then
        parse_open c num_tokens parsemode_sizecheck parser tks count
      else if c = CHR ''}'' \<or> c = CHR '']'' then
        parse_close c parser tks count
      else if c = dquote then
        (case jsmn_parse_string parser js len tks num_tokens parsemode_sizecheck of
           None \<Rightarrow> None
         | Some (r, parser1, tks1) \<Rightarrow>
             (if r < 0 then Some (Return r parser1 tks1)
              else Some (Continue parser1 (bump_super parser1 tks1) (count + 1))))
      else if c \<in> {CHR 0x09, CHR 0x0D, CHR 0x0A, CHR '' ''} then
        Some (Continue parser tks count)
      else if c = CHR '':'' then
        Some (Continue (parser\<lparr>toksuper := int (toknext parser) - 1\<rparr>) tks count)
      else if c = CHR '','' then
        Some (Continue (parse_comma parser tks) tks count)
      else if prim_start c then
        (if prim_is_key parser tks then Some (Return JSMN_ERROR_INVAL parser tks)
         else
           (case jsmn_parse_primitive parser js len tks num_tokens parsemode_sizecheck of
              None \<Rightarrow> None
            | Some (r, parser1, tks1) \<Rightarrow>
                (if r < 0 then Some (Return r parser1 tks1)
                 else Some (Continue parser1 (bump_super parser1 tks1) (count + 1)))))
      else Some (Return JSMN_ERROR_INVAL parser tks))"

lemma prim_scan_ge: "prim_scan js len p = Inr d \<Longrightarrow> p \<le> d"
proof (induction "len - p" arbitrary: p rule: less_induct)
  case less
  from less.prems prim_scan.simps [of js len p]
  have "d = p \<or> (p < len \<and> prim_scan js len (p + 1) = Inr d)"
    by (auto split: if_splits)
  then show ?case
  proof
    assume "d = p"
    then show ?thesis by simp
  next
    assume step: "p < len \<and> prim_scan js len (p + 1) = Inr d"
    then have "len - (p + 1) < len - p" by auto
    from less.hyps [OF this] step have "p + 1 \<le> d" by simp
    then show ?thesis by simp
  qed
qed

lemma string_scan_ge: "string_scan js len p = Inr q \<Longrightarrow> p \<le> q"
proof (induction "len - p" arbitrary: p rule: less_induct)
  case less
  from less.prems string_scan.simps [of js len p]
  have "q = p \<or> (\<exists>p'. p < len \<and> p < p' \<and> string_scan js len p' = Inr q)"
    by (auto split: if_splits sum.splits dest!: hex_scan_ge)
  then show ?case
  proof
    assume "q = p"
    then show ?thesis by simp
  next
    assume "\<exists>p'. p < len \<and> p < p' \<and> string_scan js len p' = Inr q"
    then obtain p' where step: "p < len" "p < p'" "string_scan js len p' = Inr q"
      by blast
    then have "len - p' < len - p" by auto
    from less.hyps [OF this step(3)] step(2) show ?thesis by simp
  qed
qed

lemma jsmn_alloc_token_pos:
  "jsmn_alloc_token parser toks n sc = (ptr, parser', toks') \<Longrightarrow> pos parser' = pos parser"
  by (auto simp: jsmn_alloc_token_def split: if_splits)

lemma prim_scan_gt:
  assumes "prim_scan js len p = Inr d" and "prim_start (js ! p)"
  shows "p < d"
proof -
  from assms prim_scan.simps [of js len p]
  have "prim_scan js len (p + 1) = Inr d"
    by (auto simp: prim_start_def isdigit_def split: if_splits)
  from prim_scan_ge [OF this] show ?thesis by simp
qed

lemma jsmn_parse_primitive_pos:
  assumes "jsmn_parse_primitive parser js len tks n sc = Some (r, parser', tks')"
    and "prim_start (js ! pos parser)"
  shows "pos parser \<le> pos parser'"
proof (cases "prim_scan js len (pos parser)")
  case (Inl e)
  with assms(1) show ?thesis
    by (auto simp: jsmn_parse_primitive_def)
next
  case (Inr d)
  from prim_scan_gt [OF Inr assms(2)] have "pos parser \<le> d - 1" by simp
  with assms(1) Inr show ?thesis
    by (auto simp: jsmn_parse_primitive_def Let_def
        split: option.splits prod.splits tokptr.splits dest: jsmn_alloc_token_pos)
qed

lemma jsmn_parse_string_pos:
  assumes "jsmn_parse_string parser js len tks n sc = Some (r, parser', tks')"
  shows "pos parser \<le> pos parser'"
proof (cases "string_scan js len (pos parser + 1)")
  case (Inl e)
  with assms show ?thesis
    by (auto simp: jsmn_parse_string_def)
next
  case (Inr q)
  from string_scan_ge [OF Inr] have "pos parser \<le> q" by simp
  with assms Inr show ?thesis
    by (auto simp: jsmn_parse_string_def Let_def
        split: option.splits prod.splits tokptr.splits dest: jsmn_alloc_token_pos)
qed

lemma parse_open_pos:
  "parse_open c n sc parser tks count = Some (Continue parser' tks' count')
     \<Longrightarrow> pos parser' = pos parser"
  by (auto simp: parse_open_def Let_def
      split: option.splits prod.splits tokptr.splits if_splits dest: jsmn_alloc_token_pos)

lemma parse_close_pos:
  "parse_close c parser tks count = Some (Continue parser' tks' count')
     \<Longrightarrow> pos parser' = pos parser"
  by (auto simp: parse_close_def Let_def split: option.splits if_splits)

lemma parse_comma_pos: "pos (parse_comma parser tks) = pos parser"
  by (simp add: parse_comma_def split: option.splits)

lemma jsmn_parse_char_pos:
  assumes "jsmn_parse_char js len n sc parser tks count = Some (Continue parser' tks' count')"
  shows "pos parser \<le> pos parser'"
  using assms
  by (auto simp: jsmn_parse_char_def Let_def parse_comma_pos
      split: if_splits option.splits prod.splits
      dest: parse_open_pos parse_close_pos jsmn_parse_string_pos jsmn_parse_primitive_pos)

text \<open>
  The loop of \<^verbatim>\<open>jsmn_parse\<close> with its increment \<^verbatim>\<open>parser->pos++\<close>, and the check for an
  unmatched open token after it. The triple returned is the return value, the parser and
  the token array.
\<close>

function jsmn_parse_loop ::
  "string \<Rightarrow> nat \<Rightarrow> nat \<Rightarrow> bool \<Rightarrow> jsmn_parser \<Rightarrow> jsmntok list option \<Rightarrow> int
     \<Rightarrow> (int \<times> jsmn_parser \<times> jsmntok list option) option" where
  "jsmn_parse_loop js len num_tokens parsemode_sizecheck parser tks count =
     (if pos parser < len \<and> js ! pos parser \<noteq> NUL then
        (case jsmn_parse_char js len num_tokens parsemode_sizecheck parser tks count of
           None \<Rightarrow> None
         | Some (Return r parser1 tks1) \<Rightarrow> Some (r, parser1, tks1)
         | Some (Continue parser1 tks1 count1) \<Rightarrow>
             jsmn_parse_loop js len num_tokens parsemode_sizecheck
               (parser1\<lparr>pos := pos parser1 + 1\<rparr>) tks1 count1)
      else
        (case tks of
           None \<Rightarrow> Some (count, parser, tks)
         | Some toks \<Rightarrow>
             (if find_open toks (toknext parser) \<noteq> None
              then Some (JSMN_ERROR_PART, parser, tks)
              else Some (count, parser, tks))))"
  by pat_completeness auto
termination
  by (relation "measure (\<lambda>(js, len, n, sc, parser, tks, count). len - pos parser)")
     (auto dest: jsmn_parse_char_pos)

declare jsmn_parse_loop.simps [simp del]

definition jsmn_parse ::
  "jsmn_parser \<Rightarrow> string \<Rightarrow> nat \<Rightarrow> jsmntok list option \<Rightarrow> nat \<Rightarrow> bool
     \<Rightarrow> (int \<times> jsmn_parser \<times> jsmntok list option) option" where
  "jsmn_parse parser js len tks num_tokens parsemode_sizecheck =
     jsmn_parse_loop js len num_tokens parsemode_sizecheck parser tks (int (toknext parser))"

section \<open>Document\<close>

text \<open>
  What the C library leaves open. \<open>realloc0_null\<close>: \<^verbatim>\<open>realloc(p, 0)\<close> of a live block
  frees it and returns a null pointer (as glibc does) rather than a block of size zero.
  \<open>malloc0_null\<close>: \<^verbatim>\<open>malloc(0)\<close>, and so \<^verbatim>\<open>realloc(NULL, 0)\<close>, returns a null pointer rather
  than a block of size zero. \<open>fresh\<close>: the indeterminate content of the cells of newly
  allocated memory, by cell number. Allocation itself is taken to succeed.
\<close>

record c_heap =
  realloc0_null :: bool
  malloc0_null :: bool
  fresh :: "nat \<Rightarrow> jsmntok"

definition realloc_tokens :: "c_heap \<Rightarrow> jsmntok list option \<Rightarrow> nat \<Rightarrow> jsmntok list option" where
  "realloc_tokens h p n =
     (if n = 0 then
        (case p of
           None \<Rightarrow> (if malloc0_null h then None else Some [])
         | Some old \<Rightarrow> (if realloc0_null h then None else Some []))
      else
        (case p of
           None \<Rightarrow> Some (map (fresh h) [0..<n])
         | Some old \<Rightarrow> Some (take n old @ map (fresh h) [length old..<n])))"

definition jsmnreader_init :: "c_heap \<Rightarrow> jsmnreader_obj" where
  "jsmnreader_init h =
     \<lparr>txt_buf = [], txt_size = 0,
      tokens = (if malloc0_null h then None else Some []),
      tokens_count = 0\<rparr>"

text \<open>
  \<^verbatim>\<open>jsmnreader_load\<close>: the sizing pass over the block that \<^verbatim>\<open>realloc(tokens, 0)\<close> returned,
  with \<open>num_tokens = 2\<close>, then the fill pass over a block of \<open>tokens_count\<close> cells.
\<close>

definition jsmnreader_load ::
  "c_heap \<Rightarrow> string \<Rightarrow> nat \<Rightarrow> jsmnreader_obj \<Rightarrow> (int \<times> jsmnreader_obj) option" where
  "jsmnreader_load h str str_size reader =
     (let reader1 = reader\<lparr>txt_buf := str, txt_size := str_size, tokens_count := 2\<rparr>;
          reader2 = reader1\<lparr>tokens := realloc_tokens h (tokens reader1) 0\<rparr>
      in case jsmn_parse jsmn_init (txt_buf reader2) (txt_size reader2) (tokens reader2)
                (tokens_count reader2) True of
           None \<Rightarrow> None
         | Some (check1, parser1, tks1) \<Rightarrow>
             (let reader3 = reader2\<lparr>tokens := tks1\<rparr>;
                  reader4 = (if check1 \<ge> 0 then reader3\<lparr>tokens_count := nat check1\<rparr>
                             else reader3);
                  reader5 = reader4\<lparr>tokens :=
                              realloc_tokens h (tokens reader4) (tokens_count reader4)\<rparr>
              in case jsmn_parse jsmn_init (txt_buf reader5) (txt_size reader5) (tokens reader5)
                        (tokens_count reader5) False of
                   None \<Rightarrow> None
                 | Some (check, parser2, tks2) \<Rightarrow>
                     (let reader6 = reader5\<lparr>tokens := tks2\<rparr> in
                      if check = JSMN_ERROR_NOMEM then Some (JSMN_ERROR_NOMEM, reader6)
                      else if check = JSMN_ERROR_INVAL then
                        Some (JSMN_ERROR_INVAL,
                              reader6\<lparr>tokens_count := 0,
                                      tokens := realloc_tokens h (tokens reader6) 0\<rparr>)
                      else if check = JSMN_ERROR_PART then
                        Some (JSMN_ERROR_PART,
                              reader6\<lparr>tokens_count := 0,
                                      tokens := realloc_tokens h (tokens reader6) 0\<rparr>)
                      else Some (JSMN_SUCCESS, reader6))))"

section \<open>Typed accessors\<close>

text \<open>
  \<^verbatim>\<open>jsmnreader_extract\<close>: the loop over \<open>r\<close> with the output built so far. The result is
  the sequence of characters written to the new buffer. (The C code writes the
  terminating zero together with each character, so a buffer to which nothing was written
  has no terminator.)
\<close>

function extract_loop :: "string \<Rightarrow> nat \<Rightarrow> nat \<Rightarrow> string \<Rightarrow> string option" where
  "extract_loop t r e out =
     (if r < e then
        do {
          c \<leftarrow> char_at t r;
          if c \<noteq> bslash then extract_loop t (r + 1) e (out @ [c])
          else do {
            d \<leftarrow> char_at t (r + 1);
            extract_loop t (r + 2) e
              (if d = bslash then out @ [bslash]
               else if d = dquote then out @ [dquote]
               else out)
          }
        }
      else Some out)"
  by pat_completeness auto
termination
  by (relation "measure (\<lambda>(t, r, e, out). e - r)") auto

declare extract_loop.simps [simp del]

definition jsmnreader_extract :: "nat \<Rightarrow> nat \<Rightarrow> jsmnreader_obj \<Rightarrow> string option" where
  "jsmnreader_extract start e reader = extract_loop (txt_buf reader) start e []"

definition jsmnreader_token_get_string :: "nat \<Rightarrow> jsmnreader_obj \<Rightarrow> string option" where
  "jsmnreader_token_get_string index reader =
     (if tokens_count reader > 0 \<and> index < tokens_count reader then
        do {
          t \<leftarrow> tok_at reader index;
          if tok_type t = JSMN_STRING \<or> tok_type t = JSMN_PRIMITIVE
          then jsmnreader_extract (uint_of (tok_start t)) (uint_of (tok_end t)) reader
          else Some []
        }
      else Some [])"

definition jsmnreader_token_get_object :: "nat \<Rightarrow> jsmnreader_obj \<Rightarrow> nat option" where
  "jsmnreader_token_get_object index reader =
     (if tokens_count reader > 0 \<and> index < tokens_count reader then
        do {
          t \<leftarrow> tok_at reader index;
          Some (if tok_type t = JSMN_OBJECT then index else NOT_FOUND)
        }
      else Some NOT_FOUND)"

definition jsmnreader_token_get_array :: "nat \<Rightarrow> jsmnreader_obj \<Rightarrow> nat option" where
  "jsmnreader_token_get_array index reader =
     (if tokens_count reader > 0 \<and> index < tokens_count reader then
        do {
          t \<leftarrow> tok_at reader index;
          Some (if tok_type t = JSMN_ARRAY then index else NOT_FOUND)
        }
      else Some NOT_FOUND)"

text \<open>
  The C string held by a buffer that \<^verbatim>\<open>jsmnreader_extract\<close> returned: the characters before
  the first zero byte. A buffer to which nothing was written is a block of size zero
  without a terminator, and reading it as a string has no defined result.
\<close>

definition c_str :: "string \<Rightarrow> string" where
  "c_str s = takeWhile (\<lambda>c. c \<noteq> NUL) s"

definition buf_str :: "string \<Rightarrow> string option" where
  "buf_str buf = (if buf = [] then None else Some (c_str buf))"

text \<open>
  \<^verbatim>\<open>strtol(s, NULL, 10)\<close> of the C library, on a 64-bit \<^verbatim>\<open>long\<close>: white space, an optional
  sign, the longest run of decimal digits, the value clamped to the range of \<^verbatim>\<open>long\<close>;
  zero when there is no digit. The assignment to the \<^verbatim>\<open>int num\<close> keeps the low 32 bits.
\<close>

definition isspace :: "char \<Rightarrow> bool" where
  "isspace c = (c \<in> {CHR '' '', CHR 0x09, CHR 0x0A, CHR 0x0B, CHR 0x0C, CHR 0x0D})"

fun digits_value :: "int \<Rightarrow> string \<Rightarrow> int" where
  "digits_value acc [] = acc"
| "digits_value acc (c # cs) =
     (if isdigit c then digits_value (acc * 10 + (of_char c - 48)) cs else acc)"

definition strtol :: "string \<Rightarrow> int" where
  "strtol s =
     (let s1 = dropWhile isspace s;
          neg = (s1 \<noteq> [] \<and> hd s1 = CHR ''-'');
          s2 = (if s1 \<noteq> [] \<and> (hd s1 = CHR ''-'' \<or> hd s1 = CHR ''+'') then tl s1 else s1);
          v = digits_value 0 s2
      in if neg then max (- 9223372036854775808) (- v) else min 9223372036854775807 v)"

definition int_of_long :: "int \<Rightarrow> int" where
  "int_of_long x = (x + 2147483648) mod 4294967296 - 2147483648"

definition jsmnreader_token_get_int :: "nat \<Rightarrow> jsmnreader_obj \<Rightarrow> int option" where
  "jsmnreader_token_get_int index reader =
     (if tokens_count reader > 0 \<and> index < tokens_count reader then
        do {
          t \<leftarrow> tok_at reader index;
          if tok_type t = JSMN_PRIMITIVE then
            do {
              raw_buf \<leftarrow> jsmnreader_extract (uint_of (tok_start t)) (uint_of (tok_end t)) reader;
              raw_str \<leftarrow> buf_str raw_buf;
              Some (if raw_str \<noteq> [] \<and> hd raw_str = CHR ''t'' \<and> raw_str = ''true'' then 1
                    else int_of_long (strtol raw_str))
            }
          else Some 0
        }
      else Some 0)"

section \<open>Tree navigator\<close>

text \<open>
  \<^verbatim>\<open>jsmnreader_tree_parsepath\<close>: the segments of the path, split at each backslash. The
  argument of the loop is the rest of the path from position \<open>i\<close>; the empty rest is the
  terminating zero. The length of the result is \<^verbatim>\<open>*path_count\<close>.
\<close>

fun parsepath_loop :: "string \<Rightarrow> string \<Rightarrow> string list \<Rightarrow> string list" where
  "parsepath_loop [] temp_str path_list = path_list @ [temp_str]"
| "parsepath_loop (c # cs) temp_str path_list =
     (if c = bslash then parsepath_loop cs [] (path_list @ [temp_str])
      else parsepath_loop cs (temp_str @ [c]) path_list)"

definition jsmnreader_tree_parsepath :: "string \<Rightarrow> string list" where
  "jsmnreader_tree_parsepath mypath =
     (if c_str mypath = [] then [] else parsepath_loop (c_str mypath) [] [])"

text \<open>
  \<^verbatim>\<open>jsmnreader_dataskip\<close>. The function reads the size of the token at \<open>r\<close>, steps to
  \<open>r + 1\<close> and runs its loop, which calls the function again on nested containers.
  \<open>dataskip_loop\<close> is that loop, with the recursive call written out as the read of the
  size and the loop of the callee. The parameter \<^verbatim>\<open>objs\<close> of the source is never read or
  written and is left out. The result is the new value of \<^verbatim>\<open>*r\<close>.
\<close>

function dataskip_loop :: "jsmnreader_obj \<Rightarrow> int \<Rightarrow> nat \<Rightarrow> nat \<Rightarrow> nat option" where
  "dataskip_loop reader mode r objs_sub =
     (if r < tokens_count reader \<and> objs_sub > 0 then
        (case tok_at reader (r + (if mode = 0 then 1 else 0)) of
           None \<Rightarrow> None
         | Some t \<Rightarrow>
             (if tok_type t = JSMN_OBJECT \<or> tok_type t = JSMN_ARRAY then
                (case tok_at reader (if mode = 0 then r + 1 else r) of
                   None \<Rightarrow> None
                 | Some t1 \<Rightarrow>
                     (case dataskip_loop reader (if tok_type t = JSMN_OBJECT then 0 else 1)
                             ((if mode = 0 then r + 1 else r) + 1) (uint_of (tok_size t1)) of
                        None \<Rightarrow> None
                      | Some r2 \<Rightarrow> dataskip_loop reader mode r2 (objs_sub - 1)))
              else dataskip_loop reader mode (if mode = 1 then r + 1 else r + 2) (objs_sub - 1)))
      else Some r)"
  by pat_completeness auto

lemma dataskip_loop_ge_dom:
  "dataskip_loop_dom (reader, mode, r, objs_sub)
     \<Longrightarrow> dataskip_loop reader mode r objs_sub = Some r' \<Longrightarrow> r \<le> r'"
proof (induction reader mode r objs_sub arbitrary: r' rule: dataskip_loop.pinduct)
  case (1 reader mode r objs_sub)
  note unfold = dataskip_loop.psimps [OF "1.hyps"]
  show ?case
  proof (cases "r < tokens_count reader \<and> objs_sub > 0")
    case False
    with "1.prems" unfold show ?thesis by simp
  next
    case True
    then obtain t where t: "tok_at reader (r + (if mode = 0 then 1 else 0)) = Some t"
      using "1.prems" unfold by (cases "tok_at reader (r + (if mode = 0 then 1 else 0))") auto
    show ?thesis
    proof (cases "tok_type t = JSMN_OBJECT \<or> tok_type t = JSMN_ARRAY")
      case False
      with True t "1.prems" unfold
      have "dataskip_loop reader mode (if mode = 1 then r + 1 else r + 2) (objs_sub - 1) = Some r'"
        by simp
      from "1.IH"(3) [OF True t False this] show ?thesis
        by (simp split: if_splits)
    next
      case cont: True
      then obtain t1 where t1: "tok_at reader (if mode = 0 then r + 1 else r) = Some t1"
        using True t "1.prems" unfold
        by (cases "tok_at reader (if mode = 0 then r + 1 else r)") auto
      then obtain r2 where r2: "dataskip_loop reader (if tok_type t = JSMN_OBJECT then 0 else 1)
             ((if mode = 0 then r + 1 else r) + 1) (uint_of (tok_size t1)) = Some r2"
        and rest: "dataskip_loop reader mode r2 (objs_sub - 1) = Some r'"
        using True t cont "1.prems" unfold
        by (auto split: option.splits)
      from "1.IH"(1) [OF True t cont t1 r2] have "r < r2"
        by (simp split: if_splits)
      moreover from "1.IH"(2) [OF True t cont t1 r2 rest] have "r2 \<le> r'" .
      ultimately show ?thesis by simp
    qed
  qed
qed

lemma dataskip_loop_total: "All dataskip_loop_dom"
proof (relation "measure (\<lambda>(reader, mode, r, objs_sub). tokens_count reader - r)", goal_cases)
  case 1
  show ?case by simp
next
  case (2 reader mode r objs_sub t t1)
  then show ?case by auto
next
  case (3 reader mode r objs_sub t t1 r2)
  from dataskip_loop_ge_dom [OF 3(6) 3(5)] 3(1) show ?case
    by (auto split: if_splits)
next
  case (4 reader mode r objs_sub t)
  then show ?case by auto
qed

termination dataskip_loop
  by (rule dataskip_loop_total)

declare dataskip_loop.simps [simp del]

definition jsmnreader_dataskip :: "jsmnreader_obj \<Rightarrow> int \<Rightarrow> nat \<Rightarrow> nat option" where
  "jsmnreader_dataskip reader mode r =
     (case tok_at reader r of
        None \<Rightarrow> None
      | Some t \<Rightarrow> dataskip_loop reader mode (r + 1) (uint_of (tok_size t)))"

lemma dataskip_loop_ge: "dataskip_loop reader mode r objs_sub = Some r' \<Longrightarrow> r \<le> r'"
  by (rule dataskip_loop_ge_dom [OF dataskip_loop_total [THEN spec]])

lemma jsmnreader_dataskip_gt: "jsmnreader_dataskip reader mode r = Some r' \<Longrightarrow> r < r'"
  by (auto simp: jsmnreader_dataskip_def split: option.splits dest!: dataskip_loop_ge)

text \<open>
  \<^verbatim>\<open>strcmp(path_list[i], ex_txt) == 0\<close>, where \<open>ex_txt\<close> is a buffer returned by
  \<^verbatim>\<open>jsmnreader_extract\<close>.
\<close>

definition strcmp_eq :: "string \<Rightarrow> string \<Rightarrow> bool option" where
  "strcmp_eq seg buf = do { s \<leftarrow> buf_str buf; Some (seg = s) }"

text \<open>
  The loop of \<^verbatim>\<open>jsmnreader_tree_get_x\<close>. The variables of the walk are \<open>offset\<close> (the
  scope), \<open>objs\<close>, \<open>r\<close> and the segment cursor \<open>i\<close>. One pass of the body either
  finishes the loop (\<^verbatim>\<open>finished_loop = 1\<close>) with the value that \<open>loc\<close> has then, or goes
  on with new variables. \<open>loc\<close> is \<^verbatim>\<open>(unsigned) -1\<close> until the pass that finishes.
\<close>

record tree_walk =
  tw_offset :: nat
  tw_objs :: nat
  tw_r :: nat
  tw_i :: nat

datatype tree_step = Finished nat | Walk tree_walk

definition tree_get_x_step ::
  "string list \<Rightarrow> jsmnreader_obj \<Rightarrow> tree_walk \<Rightarrow> tree_step option" where
  "tree_get_x_step path_list reader w =
     do {
       tk \<leftarrow> tok_at reader (tw_r w);
       ex_txt \<leftarrow> jsmnreader_extract (uint_of (tok_start tk)) (uint_of (tok_end tk)) reader;
       selected_token \<leftarrow>
         (if length path_list > 0 \<and> tw_i w < length path_list
          then strcmp_eq (path_list ! tw_i w) ex_txt else Some False);
       tv \<leftarrow> tok_at reader (tw_r w + 1);
       if tok_type tv = JSMN_PRIMITIVE \<or> tok_type tv = JSMN_STRING then
         (if selected_token then
            do {
              ex_txt2 \<leftarrow> jsmnreader_extract (uint_of (tok_start tv)) (uint_of (tok_end tv)) reader;
              Some (Finished (tw_r w + 1))
            }
          else Some (Walk (w\<lparr>tw_r := tw_r w + 2, tw_objs := tw_objs w - 1\<rparr>)))
       else if tok_type tv = JSMN_OBJECT then
         (if \<not> selected_token then
            do {
              r' \<leftarrow> jsmnreader_dataskip reader 0 (tw_r w + 1);
              Some (Walk (w\<lparr>tw_r := r', tw_objs := tw_objs w - 1\<rparr>))
            }
          else if tw_i w = length path_list - 1 then Some (Finished (tw_r w + 1))
          else
            Some (Walk \<lparr>tw_offset = tw_r w + 1,
                        tw_objs = uint_of (tok_size tv),
                        tw_r = tw_r w + 2,
                        tw_i = (if tw_i w + 1 > length path_list - 1 then length path_list - 1
                                else tw_i w + 1)\<rparr>))
       else if tok_type tv = JSMN_ARRAY then
         (if \<not> selected_token then
            do {
              r' \<leftarrow> jsmnreader_dataskip reader 1 (tw_r w + 1);
              Some (Walk (w\<lparr>tw_r := r', tw_objs := tw_objs w - 1\<rparr>))
            }
          else if tw_i w = length path_list - 1 then Some (Finished (tw_r w + 1))
          else Some (Finished NOT_FOUND))
       else Some (Finished NOT_FOUND)
     }"

lemma tree_get_x_step_r:
  assumes "tree_get_x_step path_list reader w = Some (Walk w')"
  shows "tw_r w < tw_r w'"
  using assms
  by (auto simp: tree_get_x_step_def split: Option.bind_splits if_splits
      dest!: jsmnreader_dataskip_gt)

function tree_get_x_loop :: "string list \<Rightarrow> jsmnreader_obj \<Rightarrow> tree_walk \<Rightarrow> nat option" where
  "tree_get_x_loop path_list reader w =
     (if tw_objs w > 0 \<and> tw_r w < tokens_count reader then
        (case tree_get_x_step path_list reader w of
           None \<Rightarrow> None
         | Some (Finished loc) \<Rightarrow> Some loc
         | Some (Walk w') \<Rightarrow> tree_get_x_loop path_list reader w')
      else Some NOT_FOUND)"
  by pat_completeness auto
termination
  by (relation "measure (\<lambda>(path_list, reader, w). tokens_count reader - tw_r w)")
     (auto dest!: tree_get_x_step_r)

declare tree_get_x_loop.simps [simp del]

text \<open>
  \<^verbatim>\<open>jsmnreader_tree_get_x\<close>. The test of the scope sets \<^verbatim>\<open>in_offset\<close>; when it fails the
  function executes \<^verbatim>\<open>return 0\<close>.
\<close>

definition in_offset :: "nat \<Rightarrow> jsmnreader_obj \<Rightarrow> bool option" where
  "in_offset offset reader =
     (if tokens_count reader > 0 \<and> offset < tokens_count reader then
        do {
          t \<leftarrow> tok_at reader offset;
          Some (tok_type t = JSMN_OBJECT \<or> tok_type t = JSMN_ARRAY)
        }
      else Some False)"

definition jsmnreader_tree_get_x :: "string \<Rightarrow> nat \<Rightarrow> jsmnreader_obj \<Rightarrow> nat option" where
  "jsmnreader_tree_get_x mypath offset reader =
     do {
       ok \<leftarrow> in_offset offset reader;
       if \<not> ok then Some 0
       else
         do {
           t \<leftarrow> tok_at reader offset;
           tree_get_x_loop (jsmnreader_tree_parsepath mypath) reader
             \<lparr>tw_offset = offset, tw_objs = uint_of (tok_size t), tw_r = offset + 1, tw_i = 0\<rparr>
         }
     }"

section \<open>Enumerators\<close>

text \<open>
  \<^verbatim>\<open>jsmnreader_token_array_tokens\<close>. The result array has \<open>arrays_size\<close> cells; a cell is
  \<open>None\<close> as long as nothing was written to it. The loop counts \<open>objs\<close> down in every
  pass.
\<close>

function array_tokens_loop ::
  "jsmnreader_obj \<Rightarrow> nat option list \<Rightarrow> nat \<Rightarrow> nat \<Rightarrow> nat \<Rightarrow> nat option list option" where
  "array_tokens_loop reader edit i objs r =
     (if objs > 0 \<and> r < tokens_count reader then
        (case tok_at reader r of
           None \<Rightarrow> None
         | Some t \<Rightarrow>
             (if tok_type t = JSMN_STRING \<or> tok_type t = JSMN_PRIMITIVE then
                (if i < length edit
                 then array_tokens_loop reader (edit[i := Some r]) (i + 1) (objs - 1) (r + 1)
                 else None)
              else if tok_type t = JSMN_OBJECT \<or> tok_type t = JSMN_ARRAY then
                (if i < length edit then
                   (case jsmnreader_dataskip reader (if tok_type t = JSMN_OBJECT then 0 else 1) r of
                      None \<Rightarrow> None
                    | Some r' \<Rightarrow>
                        array_tokens_loop reader (edit[i := Some r]) (i + 1) (objs - 1) r')
                 else None)
              else array_tokens_loop reader edit i (objs - 1) r))
      else Some edit)"
  by pat_completeness auto
termination
  by (relation "measure (\<lambda>(reader, edit, i, objs, r). objs)") auto

declare array_tokens_loop.simps [simp del]

text \<open>The pair returned is \<^verbatim>\<open>*arrays\<close> and \<^verbatim>\<open>*arrays_size\<close>.\<close>

definition jsmnreader_token_array_tokens ::
  "nat \<Rightarrow> jsmnreader_obj \<Rightarrow> (nat option list \<times> nat) option" where
  "jsmnreader_token_array_tokens offset reader =
     do {
       a \<leftarrow> jsmnreader_token_get_array offset reader;
       if a \<noteq> NOT_FOUND then
         do {
           t \<leftarrow> tok_at reader offset;
           edit \<leftarrow> array_tokens_loop reader (replicate (uint_of (tok_size t)) None) 0
                     (uint_of (tok_size t)) (offset + 1);
           Some (edit, uint_of (tok_size t))
         }
       else Some ([], 0)
     }"

datatype jsmnreaderobjread_t = JSMNR_BOTH | JSMNR_KEYONLY | JSMNR_ITEMONLY

text \<open>
  The two guarded appends of \<^verbatim>\<open>jsmnreader_token_object_tokens\<close>, which every case of its
  \<^verbatim>\<open>switch\<close> repeats under the test \<^verbatim>\<open>i == path_count\<close>.
\<close>

definition emit :: "jsmnreaderobjread_t \<Rightarrow> bool \<Rightarrow> nat \<Rightarrow> nat list \<Rightarrow> nat list" where
  "emit read_setting at_level r arrays =
     (if at_level then
        arrays
        @ (if read_setting = JSMNR_BOTH \<or> read_setting = JSMNR_KEYONLY then [r] else [])
        @ (if read_setting = JSMNR_BOTH \<or> read_setting = JSMNR_ITEMONLY then [r + 1] else [])
      else arrays)"

text \<open>
  The loop of \<^verbatim>\<open>jsmnreader_token_object_tokens\<close>. Its \<^verbatim>\<open>default\<close> case changes neither
  \<open>r\<close> nor \<open>objs\<close>, and neither does the Array case on a selected token, so the loop need
  not end: the value \<open>None\<close> stands for a call that does not return as well as for one
  that reads outside a block. The path is the empty one, so \<open>path_count\<close> is 0 and
  \<open>i\<close> stays 0; both are C ints.
\<close>

partial_function (option) object_tokens_loop ::
  "jsmnreaderobjread_t \<Rightarrow> string list \<Rightarrow> jsmnreader_obj \<Rightarrow> nat list \<Rightarrow> int \<Rightarrow> nat \<Rightarrow> nat
     \<Rightarrow> nat list option" where
  "object_tokens_loop read_setting path_list reader arrays i objs r =
     (if objs > 0 \<and> r < tokens_count reader then
        do {
          tk \<leftarrow> tok_at reader r;
          ex_txt \<leftarrow> jsmnreader_extract (uint_of (tok_start tk)) (uint_of (tok_end tk)) reader;
          selected_token \<leftarrow>
            (if int (length path_list) > 0 \<and> i < int (length path_list)
             then strcmp_eq (path_list ! nat i) ex_txt else Some False);
          tv \<leftarrow> tok_at reader (r + 1);
          let arrays' = emit read_setting (i = int (length path_list)) r arrays in
          if tok_type tv = JSMN_PRIMITIVE \<or> tok_type tv = JSMN_STRING then
            object_tokens_loop read_setting path_list reader arrays' i (objs - 1) (r + 2)
          else if tok_type tv = JSMN_OBJECT then
            (if \<not> selected_token then
               do {
                 r' \<leftarrow> jsmnreader_dataskip reader 0 (r + 1);
                 object_tokens_loop read_setting path_list reader arrays' i (objs - 1) r'
               }
             else if i = int (length path_list) - 1 then
               object_tokens_loop read_setting path_list reader arrays' (i + 1)
                 (uint_of (tok_size tv)) (r + 2)
             else
               object_tokens_loop read_setting path_list reader arrays'
                 (if i + 1 > int (length path_list) - 1 then int (length path_list) - 1
                  else i + 1)
                 (uint_of (tok_size tv)) (r + 2))
          else if tok_type tv = JSMN_ARRAY then
            (if \<not> selected_token then
               do {
                 r' \<leftarrow> jsmnreader_dataskip reader 1 (r + 1);
                 object_tokens_loop read_setting path_list reader arrays' i (objs - 1) r'
               }
             else object_tokens_loop read_setting path_list reader arrays' i objs r)
          else object_tokens_loop read_setting path_list reader arrays' i objs r
        }
      else Some arrays)"

text \<open>The list returned is \<^verbatim>\<open>*arrays\<close>; its length is \<^verbatim>\<open>*arrays_size\<close>.\<close>

definition jsmnreader_token_object_tokens ::
  "nat \<Rightarrow> jsmnreaderobjread_t \<Rightarrow> jsmnreader_obj \<Rightarrow> nat list option" where
  "jsmnreader_token_object_tokens offset read_setting reader =
     do {
       ok \<leftarrow> (if tokens_count reader > 0 \<and> offset < tokens_count reader
               then do { t \<leftarrow> tok_at reader offset; Some (tok_type t = JSMN_OBJECT) }
               else Some False);
       if \<not> ok then Some []
       else
         do {
           t \<leftarrow> tok_at reader offset;
           object_tokens_loop read_setting (jsmnreader_tree_parsepath []) reader []
             0 (uint_of (tok_size t)) (offset + 1)
         }
     }"

section \<open>Evaluation on concrete documents\<close>

text \<open>
  A heap that behaves as glibc does: \<^verbatim>\<open>malloc(0)\<close> returns a block of size zero and
  \<^verbatim>\<open>realloc(p, 0)\<close> frees a live block and returns a null pointer; \<open>fr\<close> is the content
  of fresh memory. \<open>blank\<close> is one such content.
\<close>

definition glibc_heap :: "(nat \<Rightarrow> jsmntok) \<Rightarrow> c_heap" where
  "glibc_heap fr = \<lparr>realloc0_null = True, malloc0_null = False, fresh = fr\<rparr>"

definition blank :: "nat \<Rightarrow> jsmntok" where
  "blank n = \<lparr>tok_type = JSMN_UNDEFINED, tok_start = 0, tok_end = 0, tok_size = 0\<rparr>"

text \<open>
  The calls that a client makes to read a document, as the example program does:
  \<^verbatim>\<open>jsmnreader_init\<close>, then \<^verbatim>\<open>jsmnreader_load\<close> on the text and its length, and the reader
  when the load returned \<^verbatim>\<open>JSMN_SUCCESS\<close>.
\<close>

definition load_document :: "c_heap \<Rightarrow> string \<Rightarrow> jsmnreader_obj option" where
  "load_document h str =
     (case jsmnreader_load h str (length str) (jsmnreader_init h) of
        None \<Rightarrow> None
      | Some (rc, reader) \<Rightarrow> if rc = JSMN_SUCCESS then Some reader else None)"

lemma tok_all_upd:
  "r\<lparr>tok_type := a, tok_start := b, tok_end := c, tok_size := d\<rparr> =
     \<lparr>tok_type = a, tok_start = b, tok_end = c, tok_size = d\<rparr>"
  by (cases r) simp

lemma replicate_numeral: "replicate (numeral k) x = x # replicate (pred_numeral k) x"
  by (simp add: numeral_eq_Suc)

lemmas parse_eval =
  jsmnreader_load_def jsmnreader_init_def glibc_heap_def load_document_def realloc_tokens_def
  jsmn_parse_def jsmn_init_def jsmn_parse_loop.simps jsmn_parse_char_def parse_open_def
  parse_close_def parse_comma_def prim_is_key_def prim_start_def isdigit_def bump_super_def
  jsmn_parse_string_def jsmn_parse_primitive_def string_scan.simps prim_scan.simps
  hex_scan.simps jsmn_alloc_token_def jsmn_fill_token_def find_open.simps
  find_open_container.simps is_open_def is_container_def is_hex_def
  JSMN_ERROR_NOMEM_def JSMN_ERROR_INVAL_def JSMN_ERROR_PART_def JSMN_SUCCESS_def
  dquote_def bslash_def NUL_def Let_def upt_rec tok_all_upd

lemmas query_eval =
  tok_at_def cells_def uint_of_def char_at_def jsmnreader_extract_def extract_loop.simps
  buf_str_def c_str_def strcmp_eq_def jsmnreader_dataskip_def dataskip_loop.simps
  NOT_FOUND_def dquote_def bslash_def NUL_def

section \<open>Parse errors\<close>

definition doc_missing_value :: string where
  "doc_missing_value = ''{\"a\":}''"

definition doc_truncated :: string where
  "doc_truncated = ''{\"a\":1''"

text \<open>
  C5, as the claim states it, fails: loading the text \<^verbatim>\<open>{"a":}\<close> does not return
  \<^verbatim>\<open>JSMN_ERROR_INVAL\<close>. No case of the tokenizer checks that a key is followed by a
  value.
\<close>

theorem load_missing_value_not_invalid:
  "map_option fst
     (jsmnreader_load (glibc_heap blank) doc_missing_value 6 (jsmnreader_init (glibc_heap blank)))
   \<noteq> Some JSMN_ERROR_INVAL"
  by (simp add: doc_missing_value_def blank_def parse_eval)

text \<open>
  C5, amended. Whatever fresh memory holds, loading \<^verbatim>\<open>{"a":}\<close> returns \<^verbatim>\<open>JSMN_SUCCESS\<close>
  and leaves two tokens, the Object with one child and the key String with none; loading
  the truncated text \<^verbatim>\<open>{"a":1\<close> returns \<^verbatim>\<open>JSMN_ERROR_PART\<close>.
\<close>

theorem load_missing_value_and_truncated:
  "jsmnreader_load (glibc_heap fr) doc_missing_value 6 (jsmnreader_init (glibc_heap fr)) =
     Some (JSMN_SUCCESS,
       \<lparr>txt_buf = doc_missing_value, txt_size = 6,
        tokens = Some [\<lparr>tok_type = JSMN_OBJECT, tok_start = 0, tok_end = 6, tok_size = 1\<rparr>,
                       \<lparr>tok_type = JSMN_STRING, tok_start = 2, tok_end = 3, tok_size = 0\<rparr>],
        tokens_count = 2\<rparr>)
   \<and> map_option fst
       (jsmnreader_load (glibc_heap fr) doc_truncated 6 (jsmnreader_init (glibc_heap fr))) =
     Some JSMN_ERROR_PART"
  by (simp add: doc_missing_value_def doc_truncated_def parse_eval)

definition doc_three_then_bad :: string where
  "doc_three_then_bad = ''[1,2,\"''"

text \<open>
  C6. The text \<^verbatim>\<open>[1,2,"\<close> makes the sizing pass fail, so the fill pass runs over two
  cells and returns \<^verbatim>\<open>JSMN_ERROR_NOMEM\<close> at the third token. \<^verbatim>\<open>jsmnreader_load\<close> returns that
  error and, unlike its branches for the two other errors, leaves \<open>tokens_count\<close> at 2; the
  accessor then reads the value 1 from token 1 of the failed parse.
\<close>

theorem load_nomem_leaves_tokens:
  "map_option (\<lambda>(rc, reader). (rc, tokens_count reader, jsmnreader_token_get_int 1 reader))
     (jsmnreader_load (glibc_heap fr) doc_three_then_bad 6 (jsmnreader_init (glibc_heap fr))) =
   Some (JSMN_ERROR_NOMEM, 2, Some 1)"
  by (simp add: doc_three_then_bad_def parse_eval jsmnreader_token_get_int_def query_eval
      strtol_def isspace_def int_of_long_def)

section \<open>Enumerating children\<close>

definition doc_two_pairs :: string where
  "doc_two_pairs = ''{\"a\":1,\"b\":2}''"

text \<open>The reader that loading \<^verbatim>\<open>{"a":1,"b":2}\<close> produces.\<close>

definition reader_two_pairs :: jsmnreader_obj where
  "reader_two_pairs =
     \<lparr>txt_buf = doc_two_pairs, txt_size = 13,
      tokens = Some
        [\<lparr>tok_type = JSMN_OBJECT, tok_start = 0, tok_end = 13, tok_size = 2\<rparr>,
         \<lparr>tok_type = JSMN_STRING, tok_start = 2, tok_end = 3, tok_size = 1\<rparr>,
         \<lparr>tok_type = JSMN_PRIMITIVE, tok_start = 5, tok_end = 6, tok_size = 0\<rparr>,
         \<lparr>tok_type = JSMN_STRING, tok_start = 8, tok_end = 9, tok_size = 1\<rparr>,
         \<lparr>tok_type = JSMN_PRIMITIVE, tok_start = 11, tok_end = 12, tok_size = 0\<rparr>],
      tokens_count = 5\<rparr>"

lemma load_two_pairs: "load_document (glibc_heap fr) doc_two_pairs = Some reader_two_pairs"
  by (simp add: doc_two_pairs_def reader_two_pairs_def parse_eval)

lemmas object_eval =
  jsmnreader_token_object_tokens_def object_tokens_loop.simps emit_def
  jsmnreader_tree_parsepath_def

text \<open>
  C8. Loading \<^verbatim>\<open>{"a":1,"b":2}\<close> gives a reader whose token 0 is the Object; enumerating
  its children yields the two key tokens 1 and 3 under \<open>JSMNR_KEYONLY\<close>, the two value
  tokens 2 and 4 under \<open>JSMNR_ITEMONLY\<close>, and 1, 2, 3, 4 (key, value, key, value) under
  \<open>JSMNR_BOTH\<close>. Tokens 1 and 3 hold the keys \<open>a\<close> and \<open>b\<close>, tokens 2 and 4 the values
  \<open>1\<close> and \<open>2\<close>.
\<close>

theorem object_tokens_two_pairs:
  "load_document (glibc_heap fr) doc_two_pairs = Some reader_two_pairs
   \<and> jsmnreader_token_object_tokens 0 JSMNR_KEYONLY reader_two_pairs = Some [1, 3]
   \<and> jsmnreader_token_object_tokens 0 JSMNR_ITEMONLY reader_two_pairs = Some [2, 4]
   \<and> jsmnreader_token_object_tokens 0 JSMNR_BOTH reader_two_pairs = Some [1, 2, 3, 4]
   \<and> map (\<lambda>k. jsmnreader_token_get_string k reader_two_pairs) [1, 2, 3, 4] =
       [Some ''a'', Some ''1'', Some ''b'', Some ''2'']"
proof -
  have keys: "jsmnreader_token_object_tokens 0 JSMNR_KEYONLY reader_two_pairs = Some [1, 3]"
    by (simp add: reader_two_pairs_def doc_two_pairs_def object_eval query_eval)
  have items: "jsmnreader_token_object_tokens 0 JSMNR_ITEMONLY reader_two_pairs = Some [2, 4]"
    by (simp add: reader_two_pairs_def doc_two_pairs_def object_eval query_eval)
  have both: "jsmnreader_token_object_tokens 0 JSMNR_BOTH reader_two_pairs = Some [1, 2, 3, 4]"
    by (simp add: reader_two_pairs_def doc_two_pairs_def object_eval query_eval)
  have texts: "map (\<lambda>k. jsmnreader_token_get_string k reader_two_pairs) [1, 2, 3, 4] =
      [Some ''a'', Some ''1'', Some ''b'', Some ''2'']"
    by (simp add: reader_two_pairs_def doc_two_pairs_def jsmnreader_token_get_string_def
        query_eval)
  from load_two_pairs keys items both texts show ?thesis by blast
qed

definition doc_nested_array :: string where
  "doc_nested_array = ''[1,{\"x\":1},[2,3],4]''"

text \<open>The reader that loading \<^verbatim>\<open>[1,{"x":1},[2,3],4]\<close> produces.\<close>

definition reader_nested_array :: jsmnreader_obj where
  "reader_nested_array =
     \<lparr>txt_buf = doc_nested_array, txt_size = 19,
      tokens = Some
        [\<lparr>tok_type = JSMN_ARRAY, tok_start = 0, tok_end = 19, tok_size = 4\<rparr>,
         \<lparr>tok_type = JSMN_PRIMITIVE, tok_start = 1, tok_end = 2, tok_size = 0\<rparr>,
         \<lparr>tok_type = JSMN_OBJECT, tok_start = 3, tok_end = 10, tok_size = 1\<rparr>,
         \<lparr>tok_type = JSMN_STRING, tok_start = 5, tok_end = 6, tok_size = 1\<rparr>,
         \<lparr>tok_type = JSMN_PRIMITIVE, tok_start = 8, tok_end = 9, tok_size = 0\<rparr>,
         \<lparr>tok_type = JSMN_ARRAY, tok_start = 11, tok_end = 16, tok_size = 2\<rparr>,
         \<lparr>tok_type = JSMN_PRIMITIVE, tok_start = 12, tok_end = 13, tok_size = 0\<rparr>,
         \<lparr>tok_type = JSMN_PRIMITIVE, tok_start = 14, tok_end = 15, tok_size = 0\<rparr>,
         \<lparr>tok_type = JSMN_PRIMITIVE, tok_start = 17, tok_end = 18, tok_size = 0\<rparr>],
      tokens_count = 9\<rparr>"

lemma load_nested_array:
  "load_document (glibc_heap fr) doc_nested_array = Some reader_nested_array"
  by (simp add: doc_nested_array_def reader_nested_array_def parse_eval)

text \<open>
  C9. Loading \<^verbatim>\<open>[1,{"x":1},[2,3],4]\<close> gives a reader whose token 0 is the Array;
  enumerating its children yields an array of exactly 4 cells holding 1, 2, 5 and 8: the
  primitive \<open>1\<close>, the opening token of the nested Object, the opening token of the
  nested Array and the primitive \<open>4\<close>, in source order. The tokens 3, 4, 6 and 7 inside
  the nested containers give no entry: \<open>jsmnreader_dataskip\<close> steps from 2 to 5 and from
  5 to 8.
\<close>

theorem array_tokens_nested_array:
  "load_document (glibc_heap fr) doc_nested_array = Some reader_nested_array
   \<and> jsmnreader_token_array_tokens 0 reader_nested_array =
       Some ([Some 1, Some 2, Some 5, Some 8], 4)
   \<and> map (\<lambda>k. tok_type (cells reader_nested_array ! k)) [1, 2, 5, 8] =
       [JSMN_PRIMITIVE, JSMN_OBJECT, JSMN_ARRAY, JSMN_PRIMITIVE]
   \<and> jsmnreader_dataskip reader_nested_array 0 2 = Some 5
   \<and> jsmnreader_dataskip reader_nested_array 1 5 = Some 8"
proof -
  have entries: "jsmnreader_token_array_tokens 0 reader_nested_array =
      Some ([Some 1, Some 2, Some 5, Some 8], 4)"
    by (simp add: reader_nested_array_def jsmnreader_token_array_tokens_def
        jsmnreader_token_get_array_def array_tokens_loop.simps query_eval replicate_numeral)
  have kinds: "map (\<lambda>k. tok_type (cells reader_nested_array ! k)) [1, 2, 5, 8] =
      [JSMN_PRIMITIVE, JSMN_OBJECT, JSMN_ARRAY, JSMN_PRIMITIVE]"
    by (simp add: reader_nested_array_def cells_def)
  have skips: "jsmnreader_dataskip reader_nested_array 0 2 = Some 5"
    "jsmnreader_dataskip reader_nested_array 1 5 = Some 8"
    by (simp_all add: reader_nested_array_def query_eval)
  from load_nested_array entries kinds skips show ?thesis by blast
qed

section \<open>Token lookup by index\<close>

text \<open>
  C10. On a reader whose token array holds at least \<open>tokens_count\<close> cells,
  \<open>jsmnreader_token_get_object\<close> returns the index when it is below the token count and
  the token there is an Object, and 4294967295 otherwise; \<open>jsmnreader_token_get_array\<close>
  does the same for Array. Both are functions of the index, the token array and the token
  count alone (the text buffer, which the path machinery reads, plays no part), and they
  return no reader: the document is not written.
\<close>

theorem token_get_object_array_spec:
  assumes "tokens_count reader \<le> length (cells reader)"
  shows "jsmnreader_token_get_object index reader =
           Some (if index < tokens_count reader \<and> tok_type (cells reader ! index) = JSMN_OBJECT
                 then index else 4294967295)
       \<and> jsmnreader_token_get_array index reader =
           Some (if index < tokens_count reader \<and> tok_type (cells reader ! index) = JSMN_ARRAY
                 then index else 4294967295)
       \<and> jsmnreader_token_get_object index (reader\<lparr>txt_buf := t', txt_size := n'\<rparr>) =
           jsmnreader_token_get_object index reader
       \<and> jsmnreader_token_get_array index (reader\<lparr>txt_buf := t', txt_size := n'\<rparr>) =
           jsmnreader_token_get_array index reader"
  using assms
  by (simp add: jsmnreader_token_get_object_def jsmnreader_token_get_array_def tok_at_def
      cells_def NOT_FOUND_def)

theorem token_get_object_array_witness:
  "tokens_count reader_nested_array \<le> length (cells reader_nested_array)
   \<and> jsmnreader_token_get_object 2 reader_nested_array = Some 2
   \<and> jsmnreader_token_get_object 5 reader_nested_array = Some 4294967295
   \<and> jsmnreader_token_get_object 9 reader_nested_array = Some 4294967295
   \<and> jsmnreader_token_get_array 5 reader_nested_array = Some 5
   \<and> jsmnreader_token_get_array 2 reader_nested_array = Some 4294967295
   \<and> jsmnreader_token_get_array 9 reader_nested_array = Some 4294967295"
proof -
  have wf: "tokens_count reader_nested_array \<le> length (cells reader_nested_array)"
    by (simp add: reader_nested_array_def cells_def)
  from wf
    token_get_object_array_spec [OF wf, of 2]
    token_get_object_array_spec [OF wf, of 5]
    token_get_object_array_spec [OF wf, of 9]
  show ?thesis
    by (simp add: reader_nested_array_def cells_def)
qed

section \<open>Path resolution\<close>

definition doc_single_pair :: string where
  "doc_single_pair = ''{\"a\":1}''"

definition reader_single_pair :: jsmnreader_obj where
  "reader_single_pair =
     \<lparr>txt_buf = doc_single_pair, txt_size = 7,
      tokens = Some
        [\<lparr>tok_type = JSMN_OBJECT, tok_start = 0, tok_end = 7, tok_size = 1\<rparr>,
         \<lparr>tok_type = JSMN_STRING, tok_start = 2, tok_end = 3, tok_size = 1\<rparr>,
         \<lparr>tok_type = JSMN_PRIMITIVE, tok_start = 5, tok_end = 6, tok_size = 0\<rparr>],
      tokens_count = 3\<rparr>"

lemma load_single_pair: "load_document (glibc_heap fr) doc_single_pair = Some reader_single_pair"
  by (simp add: doc_single_pair_def reader_single_pair_def parse_eval)

text \<open>
  Whenever the scope is out of range or is no container, \<open>jsmnreader_tree_get_x\<close>
  returns 0.
\<close>

lemma tree_get_x_bad_scope:
  assumes "in_offset offset reader = Some False"
  shows "jsmnreader_tree_get_x mypath offset reader = Some 0"
  using assms by (simp add: jsmnreader_tree_get_x_def)

lemmas tree_eval =
  jsmnreader_tree_get_x_def in_offset_def tree_get_x_loop.simps tree_get_x_step_def
  jsmnreader_tree_parsepath_def

text \<open>
  C2. On the reader loaded from \<^verbatim>\<open>{"a":1}\<close> (three tokens), the call with the path \<open>a\<close>
  and the scope 7, which is out of range, returns 0, and so does the call with the scope
  1, which is the String token of the key. The value 0 is a token index (here the root
  Object), not the sentinel 4294967295 that the comment on the function in the header
  promises and that the callers of the function test for.
\<close>

theorem tree_get_x_invalid_scope_returns_zero:
  "load_document (glibc_heap fr) doc_single_pair = Some reader_single_pair
   \<and> jsmnreader_tree_get_x ''a'' 7 reader_single_pair = Some 0
   \<and> jsmnreader_tree_get_x ''a'' 1 reader_single_pair = Some 0
   \<and> jsmnreader_tree_get_x ''a'' 0 reader_single_pair = Some 2
   \<and> (0 :: nat) \<noteq> NOT_FOUND"
proof -
  have out_of_range: "jsmnreader_tree_get_x ''a'' 7 reader_single_pair = Some 0"
    by (rule tree_get_x_bad_scope) (simp add: in_offset_def reader_single_pair_def)
  have scalar: "jsmnreader_tree_get_x ''a'' 1 reader_single_pair = Some 0"
    by (rule tree_get_x_bad_scope)
       (simp add: in_offset_def reader_single_pair_def tok_at_def cells_def)
  have root: "jsmnreader_tree_get_x ''a'' 0 reader_single_pair = Some 2"
    by (simp add: reader_single_pair_def doc_single_pair_def tree_eval query_eval)
  from load_single_pair out_of_range scalar root show ?thesis
    by (simp add: NOT_FOUND_def)
qed

definition doc_object_value :: string where
  "doc_object_value = ''{\"a\":{\"b\":\"x\"}}''"

definition reader_object_value :: jsmnreader_obj where
  "reader_object_value =
     \<lparr>txt_buf = doc_object_value, txt_size = 15,
      tokens = Some
        [\<lparr>tok_type = JSMN_OBJECT, tok_start = 0, tok_end = 15, tok_size = 1\<rparr>,
         \<lparr>tok_type = JSMN_STRING, tok_start = 2, tok_end = 3, tok_size = 1\<rparr>,
         \<lparr>tok_type = JSMN_OBJECT, tok_start = 5, tok_end = 14, tok_size = 1\<rparr>,
         \<lparr>tok_type = JSMN_STRING, tok_start = 7, tok_end = 8, tok_size = 1\<rparr>,
         \<lparr>tok_type = JSMN_STRING, tok_start = 11, tok_end = 12, tok_size = 0\<rparr>],
      tokens_count = 5\<rparr>"

lemma load_object_value:
  "load_document (glibc_heap fr) doc_object_value = Some reader_object_value"
  by (simp add: doc_object_value_def reader_object_value_def parse_eval)

definition doc_array_value :: string where
  "doc_array_value = ''{\"a\":[\"b\",\"x\"]}''"

definition reader_array_value :: jsmnreader_obj where
  "reader_array_value =
     \<lparr>txt_buf = doc_array_value, txt_size = 15,
      tokens = Some
        [\<lparr>tok_type = JSMN_OBJECT, tok_start = 0, tok_end = 15, tok_size = 1\<rparr>,
         \<lparr>tok_type = JSMN_STRING, tok_start = 2, tok_end = 3, tok_size = 1\<rparr>,
         \<lparr>tok_type = JSMN_ARRAY, tok_start = 5, tok_end = 14, tok_size = 2\<rparr>,
         \<lparr>tok_type = JSMN_STRING, tok_start = 7, tok_end = 8, tok_size = 0\<rparr>,
         \<lparr>tok_type = JSMN_STRING, tok_start = 11, tok_end = 12, tok_size = 0\<rparr>],
      tokens_count = 5\<rparr>"

lemma load_array_value:
  "load_document (glibc_heap fr) doc_array_value = Some reader_array_value"
  by (simp add: doc_array_value_def reader_array_value_def parse_eval)

text \<open>The path \<^verbatim>\<open>a\b\<close> and the state of the walk at the first child of the root.\<close>

definition path_a_b :: string where
  "path_a_b = [CHR ''a'', bslash, CHR ''b'']"

definition walk_at_root :: tree_walk where
  "walk_at_root = \<lparr>tw_offset = 0, tw_objs = 1, tw_r = 1, tw_i = 0\<rparr>"

text \<open>
  C3, as the claim states it, fails for Array values. In \<^verbatim>\<open>{"a":["b","x"]}\<close> the first
  segment of \<^verbatim>\<open>a\b\<close> matches the key \<open>a\<close>, its value is the Array at token 2 and one
  segment remains, but the pass of the loop does not go on with the scope 2, the cursor 1
  and the first child 3: it finishes, and the call returns 4294967295.
\<close>

theorem tree_get_x_array_not_descended:
  "load_document (glibc_heap blank) doc_array_value = Some reader_array_value
   \<and> jsmnreader_tree_parsepath path_a_b = [''a'', ''b'']
   \<and> tree_get_x_step [''a'', ''b''] reader_array_value walk_at_root
       \<noteq> Some (Walk \<lparr>tw_offset = 2, tw_objs = 2, tw_r = 3, tw_i = 1\<rparr>)
   \<and> tree_get_x_step [''a'', ''b''] reader_array_value walk_at_root = Some (Finished NOT_FOUND)
   \<and> jsmnreader_tree_get_x path_a_b 0 reader_array_value = Some 4294967295"
proof -
  have path: "jsmnreader_tree_parsepath path_a_b = [''a'', ''b'']"
    by (simp add: path_a_b_def jsmnreader_tree_parsepath_def c_str_def bslash_def NUL_def)
  have step: "tree_get_x_step [''a'', ''b''] reader_array_value walk_at_root =
      Some (Finished NOT_FOUND)"
    by (simp add: reader_array_value_def doc_array_value_def walk_at_root_def
        tree_get_x_step_def query_eval)
  have whole: "jsmnreader_tree_get_x path_a_b 0 reader_array_value = Some 4294967295"
    by (simp add: jsmnreader_tree_get_x_def in_offset_def path tree_get_x_loop.simps
        tree_get_x_step_def reader_array_value_def doc_array_value_def query_eval)
  from load_array_value path step whole show ?thesis by simp
qed

text \<open>
  C3, amended. When the current segment matches the key at \<open>r\<close> and is not the last
  one, a value of type Object is descended into: the scope becomes the container
  \<open>r + 1\<close>, \<open>objs\<close> its size, the cursor advances by one and the scan goes on at the
  first child \<open>r + 2\<close>. A value of type Array is not descended into: the loop finishes
  and the result is 4294967295.
\<close>

theorem tree_get_x_descends_into_objects:
  assumes "tok_at reader (tw_r w) = Some tk"
    and "jsmnreader_extract (uint_of (tok_start tk)) (uint_of (tok_end tk)) reader = Some ex_txt"
    and "tw_i w < length path_list"
    and "strcmp_eq (path_list ! tw_i w) ex_txt = Some True"
    and "tw_i w \<noteq> length path_list - 1"
    and "tok_at reader (tw_r w + 1) = Some tv"
  shows "(tok_type tv = JSMN_OBJECT \<longrightarrow>
            tree_get_x_step path_list reader w =
              Some (Walk \<lparr>tw_offset = tw_r w + 1, tw_objs = uint_of (tok_size tv),
                           tw_r = tw_r w + 2, tw_i = tw_i w + 1\<rparr>))
       \<and> (tok_type tv = JSMN_ARRAY \<longrightarrow>
            tree_get_x_step path_list reader w = Some (Finished NOT_FOUND)
            \<and> tree_get_x_loop path_list reader w = Some 4294967295)"
proof -
  from assms(3,5) have more: "\<not> tw_i w + 1 > length path_list - 1" by simp
  from assms(3) have nonempty: "length path_list > 0" by (cases path_list) auto
  have step_array: "tree_get_x_step path_list reader w = Some (Finished NOT_FOUND)"
    if "tok_type tv = JSMN_ARRAY"
    using that assms nonempty by (simp add: tree_get_x_step_def)
  then have loop_array: "tree_get_x_loop path_list reader w = Some 4294967295"
    if "tok_type tv = JSMN_ARRAY"
    using that by (subst tree_get_x_loop.simps) (simp add: NOT_FOUND_def)
  have step_object: "tree_get_x_step path_list reader w =
      Some (Walk \<lparr>tw_offset = tw_r w + 1, tw_objs = uint_of (tok_size tv),
                   tw_r = tw_r w + 2, tw_i = tw_i w + 1\<rparr>)"
    if "tok_type tv = JSMN_OBJECT"
    using that assms nonempty more by (simp add: tree_get_x_step_def)
  from step_array loop_array step_object show ?thesis by blast
qed

theorem tree_get_x_descends_into_objects_witness:
  "tree_get_x_step [''a'', ''b''] reader_object_value walk_at_root =
     Some (Walk \<lparr>tw_offset = 2, tw_objs = 1, tw_r = 3, tw_i = 1\<rparr>)
   \<and> jsmnreader_tree_get_x path_a_b 0 reader_object_value = Some 4
   \<and> tree_get_x_step [''a'', ''b''] reader_array_value walk_at_root = Some (Finished NOT_FOUND)
   \<and> tree_get_x_loop [''a'', ''b''] reader_array_value walk_at_root = Some 4294967295"
proof -
  have path: "jsmnreader_tree_parsepath path_a_b = [''a'', ''b'']"
    by (simp add: path_a_b_def jsmnreader_tree_parsepath_def c_str_def bslash_def NUL_def)
  have obj: "tree_get_x_step [''a'', ''b''] reader_object_value walk_at_root =
      Some (Walk \<lparr>tw_offset = 2, tw_objs = 1, tw_r = 3, tw_i = 1\<rparr>)"
    using tree_get_x_descends_into_objects
      [of reader_object_value walk_at_root
          "\<lparr>tok_type = JSMN_STRING, tok_start = 2, tok_end = 3, tok_size = 1\<rparr>" "''a''"
          "[''a'', ''b'']"
          "\<lparr>tok_type = JSMN_OBJECT, tok_start = 5, tok_end = 14, tok_size = 1\<rparr>"]
    by (simp add: reader_object_value_def doc_object_value_def walk_at_root_def query_eval)
  have arr: "tree_get_x_step [''a'', ''b''] reader_array_value walk_at_root =
        Some (Finished NOT_FOUND)
      \<and> tree_get_x_loop [''a'', ''b''] reader_array_value walk_at_root = Some 4294967295"
    using tree_get_x_descends_into_objects
      [of reader_array_value walk_at_root
          "\<lparr>tok_type = JSMN_STRING, tok_start = 2, tok_end = 3, tok_size = 1\<rparr>" "''a''"
          "[''a'', ''b'']"
          "\<lparr>tok_type = JSMN_ARRAY, tok_start = 5, tok_end = 14, tok_size = 2\<rparr>"]
    by (simp add: reader_array_value_def doc_array_value_def walk_at_root_def query_eval)
  have found: "jsmnreader_tree_get_x path_a_b 0 reader_object_value = Some 4"
    by (simp add: jsmnreader_tree_get_x_def in_offset_def path tree_get_x_loop.simps
        tree_get_x_step_def reader_object_value_def doc_object_value_def query_eval)
  from obj arr found show ?thesis by simp
qed

section \<open>Text of a token\<close>

text \<open>
  The decoding of a span, in the words of the amended claim C4: \<open>decode_span n cs\<close> decodes
  the first \<open>n\<close> characters of \<open>cs\<close>. A character other than a backslash is copied. A
  backslash followed by a backslash or by a double quote gives that character. A backslash
  followed by any other character gives nothing: both are dropped. (The character after a
  backslash is read even when the backslash is the last one of the span.)
\<close>

fun decode_span :: "nat \<Rightarrow> string \<Rightarrow> string" where
  "decode_span 0 cs = []"
| "decode_span (Suc n) [] = []"
| "decode_span (Suc n) (c # cs) =
     (if c \<noteq> bslash then c # decode_span n cs
      else (case cs of
              [] \<Rightarrow> []
            | d # ds \<Rightarrow>
                (if d = bslash \<or> d = dquote then d # decode_span (n - 1) ds
                 else decode_span (n - 1) ds)))"

lemma extract_loop_decode:
  assumes "e < length t"
  shows "extract_loop t r e out = Some (out @ decode_span (e - r) (drop r t))"
  using assms
proof (induction t r e out rule: extract_loop.induct)
  case (1 t r e out)
  show ?case
  proof (cases "r < e")
    case False
    then show ?thesis by (subst extract_loop.simps) simp
  next
    case True
    with "1.prems" have rlen: "r < length t" and r1len: "r + 1 < length t" by simp_all
    from True obtain n where n: "e - r = Suc n" by (cases "e - r") auto
    have dr: "drop r t = t ! r # drop (r + 1) t"
      using rlen by (simp add: Cons_nth_drop_Suc)
    have dr1: "drop (r + 1) t = t ! (r + 1) # drop (r + 2) t"
      using r1len by (simp add: Cons_nth_drop_Suc)
    have c: "char_at t r = Some (t ! r)" using rlen by (simp add: char_at_def)
    have d: "char_at t (r + 1) = Some (t ! (r + 1))" using r1len by (simp add: char_at_def)
    show ?thesis
    proof (cases "t ! r \<noteq> bslash")
      case plain: True
      from "1.IH"(1) [OF True c plain "1.prems"]
      have "extract_loop t (r + 1) e (out @ [t ! r]) =
          Some ((out @ [t ! r]) @ decode_span (e - (r + 1)) (drop (r + 1) t))" .
      moreover from n have "e - (r + 1) = n" by simp
      ultimately show ?thesis
        using True c plain n dr by (subst extract_loop.simps) simp
    next
      case esc: False
      from "1.IH"(2) [OF True c esc d "1.prems"]
      have "extract_loop t (r + 2) e
              (if t ! (r + 1) = bslash then out @ [bslash]
               else if t ! (r + 1) = dquote then out @ [dquote] else out) =
          Some ((if t ! (r + 1) = bslash then out @ [bslash]
                 else if t ! (r + 1) = dquote then out @ [dquote] else out)
                @ decode_span (e - (r + 2)) (drop (r + 2) t))" .
      moreover from n have "e - (r + 2) = n - 1" by simp
      ultimately show ?thesis
        using True c esc d n dr dr1 by (subst extract_loop.simps) auto
    qed
  qed
qed

text \<open>The raw text of a token: the bytes of the buffer from its start to its end.\<close>

definition raw_text :: "nat \<Rightarrow> jsmnreader_obj \<Rightarrow> string" where
  "raw_text index reader =
     take (uint_of (tok_end (cells reader ! index)) - uint_of (tok_start (cells reader ! index)))
       (drop (uint_of (tok_start (cells reader ! index))) (txt_buf reader))"

text \<open>
  The decoding as the claim C4 words it: a backslash is dropped and the character after it
  is copied (which gives \<^verbatim>\<open>"\<close> for \<^verbatim>\<open>\"\<close> and a backslash for two backslashes).
\<close>

fun decode_as_claimed :: "string \<Rightarrow> string" where
  "decode_as_claimed [] = []"
| "decode_as_claimed [c] = (if c = bslash then [] else [c])"
| "decode_as_claimed (c # d # cs) =
     (if c = bslash then d # decode_as_claimed cs else c # decode_as_claimed (d # cs))"

definition doc_escape_n :: string where
  "doc_escape_n = [dquote, CHR ''a'', bslash, CHR ''n'', CHR ''b'', dquote]"

definition reader_escape_n :: jsmnreader_obj where
  "reader_escape_n =
     \<lparr>txt_buf = doc_escape_n, txt_size = 6,
      tokens = Some [\<lparr>tok_type = JSMN_STRING, tok_start = 1, tok_end = 5, tok_size = 0\<rparr>],
      tokens_count = 1\<rparr>"

lemma load_escape_n: "load_document (glibc_heap fr) doc_escape_n = Some reader_escape_n"
  by (simp add: doc_escape_n_def reader_escape_n_def parse_eval)

text \<open>
  C4, as the claim states it, fails. The String token of the text \<^verbatim>\<open>"a\nb"\<close> has the raw
  text \<^verbatim>\<open>a\nb\<close>; dropping the backslash and copying the \<open>n\<close> would give \<open>anb\<close>, but
  \<open>jsmnreader_token_get_string\<close> returns \<open>ab\<close>: the \<^verbatim>\<open>switch\<close> of
  \<^verbatim>\<open>jsmnreader_extract\<close> has no case for \<open>n\<close> and the loop steps over both characters.
\<close>

theorem token_get_string_drops_escaped_char:
  "load_document (glibc_heap blank) doc_escape_n = Some reader_escape_n
   \<and> raw_text 0 reader_escape_n = [CHR ''a'', bslash, CHR ''n'', CHR ''b'']
   \<and> decode_as_claimed (raw_text 0 reader_escape_n) = ''anb''
   \<and> jsmnreader_token_get_string 0 reader_escape_n = Some ''ab''"
proof -
  have raw: "raw_text 0 reader_escape_n = [CHR ''a'', bslash, CHR ''n'', CHR ''b'']"
    by (simp add: raw_text_def reader_escape_n_def doc_escape_n_def cells_def uint_of_def)
  have claimed: "decode_as_claimed [CHR ''a'', bslash, CHR ''n'', CHR ''b''] = ''anb''"
    by (simp add: bslash_def)
  have code: "jsmnreader_token_get_string 0 reader_escape_n = Some ''ab''"
    by (simp add: jsmnreader_token_get_string_def reader_escape_n_def doc_escape_n_def
        query_eval)
  from load_escape_n raw claimed code show ?thesis by simp
qed

text \<open>
  C4, amended. For every String or Primitive token below the token count whose end lies
  inside the text buffer, \<open>jsmnreader_token_get_string\<close> returns the decoding
  \<open>decode_span\<close> of the token's span: \<^verbatim>\<open>\"\<close> and the double backslash are decoded, every
  other backslash-prefixed pair of characters is dropped whole.
\<close>

theorem token_get_string_decodes:
  assumes "index < tokens_count reader"
    and "tok_at reader index = Some t"
    and "tok_type t = JSMN_STRING \<or> tok_type t = JSMN_PRIMITIVE"
    and "uint_of (tok_end t) < length (txt_buf reader)"
  shows "jsmnreader_token_get_string index reader =
           Some (decode_span (uint_of (tok_end t) - uint_of (tok_start t))
                   (drop (uint_of (tok_start t)) (txt_buf reader)))"
  using assms extract_loop_decode [OF assms(4), of "uint_of (tok_start t)" "[]"]
  by (auto simp: jsmnreader_token_get_string_def jsmnreader_extract_def)

definition doc_escapes :: string where
  "doc_escapes = [dquote, CHR ''a'', bslash, dquote, CHR ''b'', bslash, bslash, CHR ''c'',
     bslash, CHR ''n'', CHR ''d'', bslash, CHR ''u'', CHR ''0'', CHR ''0'', CHR ''4'', CHR ''1'',
     dquote]"

definition reader_escapes :: jsmnreader_obj where
  "reader_escapes =
     \<lparr>txt_buf = doc_escapes, txt_size = 18,
      tokens = Some [\<lparr>tok_type = JSMN_STRING, tok_start = 1, tok_end = 17, tok_size = 0\<rparr>],
      tokens_count = 1\<rparr>"

lemma load_escapes: "load_document (glibc_heap fr) doc_escapes = Some reader_escapes"
  by (simp add: doc_escapes_def reader_escapes_def parse_eval)

theorem token_get_string_decodes_witness:
  "load_document (glibc_heap blank) doc_escapes = Some reader_escapes
   \<and> jsmnreader_token_get_string 0 reader_escapes =
       Some [CHR ''a'', dquote, CHR ''b'', bslash, CHR ''c'', CHR ''d'',
             CHR ''0'', CHR ''0'', CHR ''4'', CHR ''1'']"
proof -
  have "jsmnreader_token_get_string 0 reader_escapes =
      Some (decode_span (17 - 1) (drop 1 doc_escapes))"
    using token_get_string_decodes
      [of 0 reader_escapes
          "\<lparr>tok_type = JSMN_STRING, tok_start = 1, tok_end = 17, tok_size = 0\<rparr>"]
    by (simp add: reader_escapes_def doc_escapes_def tok_at_def cells_def uint_of_def)
  moreover have "decode_span (17 - 1) (drop 1 doc_escapes) =
      [CHR ''a'', dquote, CHR ''b'', bslash, CHR ''c'', CHR ''d'',
       CHR ''0'', CHR ''0'', CHR ''4'', CHR ''1'']"
    by (simp add: doc_escapes_def dquote_def bslash_def eval_nat_numeral)
  ultimately show ?thesis using load_escapes by simp
qed

text \<open>
  Numeric text: after white space and an optional sign, a decimal digit. On any other
  text \<open>strtol\<close> finds no digit and returns 0.
\<close>

definition numeric :: "string \<Rightarrow> bool" where
  "numeric s =
     (let s1 = dropWhile isspace s;
          s2 = (if s1 \<noteq> [] \<and> (hd s1 = CHR ''-'' \<or> hd s1 = CHR ''+'') then tl s1 else s1)
      in s2 \<noteq> [] \<and> isdigit (hd s2))"

lemma digits_value_no_digit: "s = [] \<or> \<not> isdigit (hd s) \<Longrightarrow> digits_value acc s = acc"
  by (cases s) auto

lemma strtol_not_numeric: "\<not> numeric s \<Longrightarrow> strtol s = 0"
  by (auto simp: numeric_def strtol_def Let_def digits_value_no_digit split: if_splits)

lemma extract_loop_plain:
  assumes "extract_loop t r e out = Some buf"
    and "bslash \<notin> set (take (e - r) (drop r t))"
  shows "buf = out @ take (e - r) (drop r t)"
  using assms
proof (induction t r e out rule: extract_loop.induct)
  case (1 t r e out)
  show ?case
  proof (cases "r < e")
    case False
    with "1.prems"(1) show ?thesis by (subst (asm) extract_loop.simps) simp
  next
    case True
    from True obtain n where n: "e - r = Suc n" by (cases "e - r") auto
    from "1.prems"(1) True have rlen: "r < length t"
      by (subst (asm) extract_loop.simps) (auto simp: char_at_def split: if_splits)
    then have c: "char_at t r = Some (t ! r)" by (simp add: char_at_def)
    have dr: "drop r t = t ! r # drop (r + 1) t"
      using rlen by (simp add: Cons_nth_drop_Suc)
    from n have n': "e - Suc r = n" by simp
    from "1.prems"(2) have "bslash \<notin> set (take (Suc n) (t ! r # drop (Suc r) t))"
      using n dr by simp
    then have plain: "t ! r \<noteq> bslash"
      and rest: "bslash \<notin> set (take (e - (r + 1)) (drop (r + 1) t))"
      using n' by auto
    from "1.prems"(1) True c plain
    have "extract_loop t (r + 1) e (out @ [t ! r]) = Some buf"
      by (subst (asm) extract_loop.simps) simp
    from "1.IH"(1) [OF True c plain this rest] n n' dr show ?thesis by simp
  qed
qed

text \<open>
  C7, amended. For every Primitive token below the token count, with \<open>buf\<close> the text
  that \<^verbatim>\<open>jsmnreader_extract\<close> produces from its span, \<open>jsmnreader_token_get_int\<close> returns 1
  when that text is \<open>true\<close>, 0 when it is \<open>false\<close>, -5 when it is \<open>-5\<close>, in general the
  base-10 conversion of that text by \<open>strtol\<close> narrowed to \<^verbatim>\<open>int\<close>, and 0 for text that is
  not numeric and not \<open>true\<close>. The extracted text is the raw text of the token whenever
  the raw text holds no backslash.
\<close>

theorem token_get_int_spec:
  assumes "index < tokens_count reader"
    and "tok_at reader index = Some t"
    and "tok_type t = JSMN_PRIMITIVE"
    and "jsmnreader_extract (uint_of (tok_start t)) (uint_of (tok_end t)) reader = Some buf"
    and "buf \<noteq> []"
  shows "jsmnreader_token_get_int index reader =
           Some (if c_str buf = ''true'' then 1 else int_of_long (strtol (c_str buf)))
       \<and> (c_str buf = ''true'' \<longrightarrow> jsmnreader_token_get_int index reader = Some 1)
       \<and> (c_str buf = ''false'' \<longrightarrow> jsmnreader_token_get_int index reader = Some 0)
       \<and> (c_str buf = ''-5'' \<longrightarrow> jsmnreader_token_get_int index reader = Some (- 5))
       \<and> (\<not> numeric (c_str buf) \<and> c_str buf \<noteq> ''true'' \<longrightarrow>
            jsmnreader_token_get_int index reader = Some 0)
       \<and> (bslash \<notin> set (raw_text index reader) \<longrightarrow> buf = raw_text index reader)"
proof -
  have main: "jsmnreader_token_get_int index reader =
      Some (if c_str buf = ''true'' then 1 else int_of_long (strtol (c_str buf)))"
    using assms by (auto simp: jsmnreader_token_get_int_def buf_str_def)
  have f: "int_of_long (strtol ''false'') = 0"
    by (simp add: strtol_def isspace_def isdigit_def int_of_long_def)
  have m5: "int_of_long (strtol ''-5'') = - 5"
    by (simp add: strtol_def isspace_def isdigit_def int_of_long_def)
  have z: "int_of_long 0 = 0" by (simp add: int_of_long_def)
  from assms(2) have t: "cells reader ! index = t"
    by (simp add: tok_at_def split: if_splits)
  have raw: "buf = raw_text index reader" if "bslash \<notin> set (raw_text index reader)"
    using extract_loop_plain [of "txt_buf reader" "uint_of (tok_start t)" "uint_of (tok_end t)" "[]" buf]
      assms(4) that
    by (simp add: raw_text_def t jsmnreader_extract_def)
  from main f m5 z raw show ?thesis
    by (auto simp: strtol_not_numeric)
qed

definition doc_primitives :: string where
  "doc_primitives = ''[true,false,-5,null]''"

definition reader_primitives :: jsmnreader_obj where
  "reader_primitives =
     \<lparr>txt_buf = doc_primitives, txt_size = 20,
      tokens = Some
        [\<lparr>tok_type = JSMN_ARRAY, tok_start = 0, tok_end = 20, tok_size = 4\<rparr>,
         \<lparr>tok_type = JSMN_PRIMITIVE, tok_start = 1, tok_end = 5, tok_size = 0\<rparr>,
         \<lparr>tok_type = JSMN_PRIMITIVE, tok_start = 6, tok_end = 11, tok_size = 0\<rparr>,
         \<lparr>tok_type = JSMN_PRIMITIVE, tok_start = 12, tok_end = 14, tok_size = 0\<rparr>,
         \<lparr>tok_type = JSMN_PRIMITIVE, tok_start = 15, tok_end = 19, tok_size = 0\<rparr>],
      tokens_count = 5\<rparr>"

lemma load_primitives: "load_document (glibc_heap fr) doc_primitives = Some reader_primitives"
  by (simp add: doc_primitives_def reader_primitives_def parse_eval)

theorem token_get_int_spec_witness:
  "load_document (glibc_heap blank) doc_primitives = Some reader_primitives
   \<and> jsmnreader_token_get_int 1 reader_primitives = Some 1
   \<and> jsmnreader_token_get_int 2 reader_primitives = Some 0
   \<and> jsmnreader_token_get_int 3 reader_primitives = Some (- 5)
   \<and> jsmnreader_token_get_int 4 reader_primitives = Some 0"
proof -
  have x1: "jsmnreader_extract 1 5 reader_primitives = Some ''true''"
    and x2: "jsmnreader_extract 6 11 reader_primitives = Some ''false''"
    and x3: "jsmnreader_extract 12 14 reader_primitives = Some ''-5''"
    and x4: "jsmnreader_extract 15 19 reader_primitives = Some ''null''"
    by (simp_all add: reader_primitives_def doc_primitives_def query_eval)
  have i1: "jsmnreader_token_get_int 1 reader_primitives = Some 1"
    using token_get_int_spec
      [of 1 reader_primitives
          "\<lparr>tok_type = JSMN_PRIMITIVE, tok_start = 1, tok_end = 5, tok_size = 0\<rparr>" "''true''"]
      x1
    by (simp add: reader_primitives_def tok_at_def cells_def uint_of_def c_str_def NUL_def
        strtol_def isspace_def isdigit_def int_of_long_def)
  have i2: "jsmnreader_token_get_int 2 reader_primitives = Some 0"
    using token_get_int_spec
      [of 2 reader_primitives
          "\<lparr>tok_type = JSMN_PRIMITIVE, tok_start = 6, tok_end = 11, tok_size = 0\<rparr>" "''false''"]
      x2
    by (simp add: reader_primitives_def tok_at_def cells_def uint_of_def c_str_def NUL_def
        strtol_def isspace_def isdigit_def int_of_long_def)
  have i3: "jsmnreader_token_get_int 3 reader_primitives = Some (- 5)"
    using token_get_int_spec
      [of 3 reader_primitives
          "\<lparr>tok_type = JSMN_PRIMITIVE, tok_start = 12, tok_end = 14, tok_size = 0\<rparr>" "''-5''"]
      x3
    by (simp add: reader_primitives_def tok_at_def cells_def uint_of_def c_str_def NUL_def
        strtol_def isspace_def isdigit_def int_of_long_def)
  have n4: "\<not> numeric ''null''"
    by (simp add: numeric_def isspace_def isdigit_def)
  have i4: "jsmnreader_token_get_int 4 reader_primitives = Some 0"
    using token_get_int_spec
      [of 4 reader_primitives
          "\<lparr>tok_type = JSMN_PRIMITIVE, tok_start = 15, tok_end = 19, tok_size = 0\<rparr>" "''null''"]
      x4 n4
    by (simp add: reader_primitives_def tok_at_def cells_def uint_of_def c_str_def NUL_def
        strtol_def isspace_def isdigit_def int_of_long_def)
  from load_primitives i1 i2 i3 i4 show ?thesis by simp
qed

definition doc_escaped_digits :: string where
  "doc_escaped_digits = [CHR ''['', CHR ''1'', bslash, CHR ''x'', CHR ''2'', CHR '']'']"

definition reader_escaped_digits :: jsmnreader_obj where
  "reader_escaped_digits =
     \<lparr>txt_buf = doc_escaped_digits, txt_size = 6,
      tokens = Some
        [\<lparr>tok_type = JSMN_ARRAY, tok_start = 0, tok_end = 6, tok_size = 1\<rparr>,
         \<lparr>tok_type = JSMN_PRIMITIVE, tok_start = 1, tok_end = 5, tok_size = 0\<rparr>],
      tokens_count = 2\<rparr>"

lemma load_escaped_digits:
  "load_document (glibc_heap fr) doc_escaped_digits = Some reader_escaped_digits"
  by (simp add: doc_escaped_digits_def reader_escaped_digits_def parse_eval)

text \<open>
  C7, as the claim states it, fails on a Primitive token whose raw text holds a backslash.
  In \<^verbatim>\<open>[1\x2]\<close> the token 1 has the raw text \<^verbatim>\<open>1\x2\<close>, whose base-10 conversion is 1;
  \<^verbatim>\<open>jsmnreader_extract\<close> drops \<^verbatim>\<open>\x\<close>, and \<open>jsmnreader_token_get_int\<close> converts the text
  \<open>12\<close> and returns 12.
\<close>

theorem token_get_int_not_of_raw_text:
  "load_document (glibc_heap blank) doc_escaped_digits = Some reader_escaped_digits
   \<and> raw_text 1 reader_escaped_digits = [CHR ''1'', bslash, CHR ''x'', CHR ''2'']
   \<and> int_of_long (strtol (raw_text 1 reader_escaped_digits)) = 1
   \<and> jsmnreader_token_get_int 1 reader_escaped_digits = Some 12"
proof -
  have raw: "raw_text 1 reader_escaped_digits = [CHR ''1'', bslash, CHR ''x'', CHR ''2'']"
    by (simp add: raw_text_def reader_escaped_digits_def doc_escaped_digits_def cells_def
        uint_of_def)
  have conv: "int_of_long (strtol [CHR ''1'', bslash, CHR ''x'', CHR ''2'']) = 1"
    by (simp add: strtol_def isspace_def isdigit_def int_of_long_def bslash_def)
  have code: "jsmnreader_token_get_int 1 reader_escaped_digits = Some 12"
    by (simp add: jsmnreader_token_get_int_def reader_escaped_digits_def
        doc_escaped_digits_def query_eval strtol_def isspace_def isdigit_def int_of_long_def)
  from load_escaped_digits raw conv code show ?thesis by simp
qed

section \<open>The two passes of the tokenizer\<close>

text \<open>
  The sizing pass of \<^verbatim>\<open>jsmnreader_load\<close> runs \<open>jsmn_parse\<close> with a null token pointer; the
  fill pass runs it over a block of cells. The sizing pass follows the fill pass step by
  step: both read the same characters, and the fill pass only adds the work on the cells.
\<close>

lemmas err_defs = JSMN_ERROR_NOMEM_def JSMN_ERROR_INVAL_def JSMN_ERROR_PART_def

lemma jsmn_parse_char_return_neg:
  assumes "jsmn_parse_char js len n sc parser tks cnt = Some (Return r p t)"
  shows "r < 0"
  using assms
  by (auto simp: jsmn_parse_char_def Let_def parse_open_def parse_close_def err_defs
      split: if_splits option.splits prod.splits tokptr.splits)

lemma hex_scan_err: "hex_scan js len i p = Inl e \<Longrightarrow> e < 0"
proof (induction "4 - i" arbitrary: i p rule: less_induct)
  case less
  from less.prems hex_scan.simps [of js len i p]
  have "e = JSMN_ERROR_INVAL \<or> (i < 4 \<and> hex_scan js len (i + 1) (p + 1) = Inl e)"
    by (auto split: if_splits)
  then show ?case
  proof
    assume "e = JSMN_ERROR_INVAL"
    then show ?thesis by (simp add: err_defs)
  next
    assume step: "i < 4 \<and> hex_scan js len (i + 1) (p + 1) = Inl e"
    then have "4 - (i + 1) < 4 - i" by auto
    from less.hyps [OF this] step show ?thesis by auto
  qed
qed

lemma prim_scan_err: "prim_scan js len p = Inl e \<Longrightarrow> e < 0"
proof (induction "len - p" arbitrary: p rule: less_induct)
  case less
  from less.prems prim_scan.simps [of js len p]
  have "e = JSMN_ERROR_INVAL \<or> e = JSMN_ERROR_PART
      \<or> (p < len \<and> prim_scan js len (p + 1) = Inl e)"
    by (auto split: if_splits)
  then show ?case
  proof (elim disjE)
    assume step: "p < len \<and> prim_scan js len (p + 1) = Inl e"
    then have "len - (p + 1) < len - p" by auto
    from less.hyps [OF this] step show ?thesis by auto
  qed (simp_all add: err_defs)
qed

lemma string_scan_err: "string_scan js len p = Inl e \<Longrightarrow> e < 0"
proof (induction "len - p" arbitrary: p rule: less_induct)
  case less
  from less.prems string_scan.simps [of js len p]
  have "e = JSMN_ERROR_INVAL \<or> e = JSMN_ERROR_PART
      \<or> (\<exists>i q. hex_scan js len i q = Inl e)
      \<or> (\<exists>p'. p < len \<and> p < p' \<and> string_scan js len p' = Inl e)"
    by (auto split: if_splits sum.splits dest!: hex_scan_ge)
  then show ?case
  proof (elim disjE exE)
    fix p'
    assume step: "p < len \<and> p < p' \<and> string_scan js len p' = Inl e"
    then have "len - p' < len - p" by auto
    from less.hyps [OF this] step show ?thesis by auto
  qed (simp_all add: err_defs hex_scan_err)
qed

lemma string_sizing:
  assumes "jsmn_parse_string parser js len (Some toks) n sc = Some (r, p1, t1)"
    and "0 \<le> r" and "pos parser0 = pos parser"
  shows "jsmn_parse_string parser0 js len None m sc' = Some (0, parser0\<lparr>pos := pos p1\<rparr>, None)
         \<and> r = 0"
  using assms
  by (auto simp: jsmn_parse_string_def Let_def jsmn_alloc_token_def jsmn_fill_token_def err_defs
      split: sum.splits if_splits dest: string_scan_err)

lemma primitive_sizing:
  assumes "jsmn_parse_primitive parser js len (Some toks) n sc = Some (r, p1, t1)"
    and "0 \<le> r" and "pos parser0 = pos parser"
  shows "jsmn_parse_primitive parser0 js len None m sc' = Some (0, parser0\<lparr>pos := pos p1\<rparr>, None)
         \<and> r = 0"
  using assms
  by (auto simp: jsmn_parse_primitive_def Let_def jsmn_alloc_token_def jsmn_fill_token_def err_defs
      split: sum.splits if_splits dest: prim_scan_err)

lemma sizing_step:
  assumes "jsmn_parse_char js len n sc parser (Some toks) cnt = Some (Continue p1 t1 c1)"
    and "pos parser0 = pos parser"
  shows "\<exists>p0. jsmn_parse_char js len m sc' parser0 None cnt = Some (Continue p0 None c1)
           \<and> pos p0 = pos p1 \<and> t1 \<noteq> None"
proof -
  let ?c = "js ! pos parser"
  consider (opn) "?c = CHR ''{'' \<or> ?c = CHR ''[''"
    | (cls) "?c = CHR ''}'' \<or> ?c = CHR '']''"
    | (str) "?c = dquote"
    | (prim) "?c \<noteq> CHR ''{''" "?c \<noteq> CHR ''[''" "?c \<noteq> CHR ''}''" "?c \<noteq> CHR '']''"
        "?c \<noteq> dquote" "?c \<notin> {CHR 0x09, CHR 0x0D, CHR 0x0A, CHR '' ''}" "?c \<noteq> CHR '':''"
        "?c \<noteq> CHR '',''" "prim_start ?c"
    | (other) "?c \<noteq> CHR ''{''" "?c \<noteq> CHR ''[''" "?c \<noteq> CHR ''}''" "?c \<noteq> CHR '']''"
        "?c \<noteq> dquote" "\<not> (?c \<noteq> CHR '':'' \<and> ?c \<noteq> CHR '','' \<and> ?c \<notin> {CHR 0x09, CHR 0x0D, CHR 0x0A, CHR '' ''} \<and> prim_start ?c)"
    by blast
  then show ?thesis
  proof cases
    case opn
    with assms show ?thesis
      by (auto simp: jsmn_parse_char_def Let_def parse_open_def parse_open_pos
          split: prod.splits tokptr.splits if_splits dest: jsmn_alloc_token_pos)
  next
    case cls
    with assms show ?thesis
      by (auto simp: jsmn_parse_char_def Let_def parse_close_def dquote_def
          split: option.splits if_splits)
  next
    case str
    with assms obtain r p' t' where
      s: "jsmn_parse_string parser js len (Some toks) n sc = Some (r, p', t')"
      and r: "0 \<le> r" and res: "p1 = p'" "t1 = bump_super p' t'" "c1 = cnt + 1"
      by (auto simp: jsmn_parse_char_def Let_def dquote_def split: option.splits if_splits)
    from s have "t' \<noteq> None"
      by (auto simp: jsmn_parse_string_def Let_def split: sum.splits prod.splits tokptr.splits)
    with string_sizing [OF s r assms(2), of m sc'] str assms(2) res show ?thesis
      by (auto simp: jsmn_parse_char_def Let_def dquote_def bump_super_def split: option.splits)
  next
    case prim
    with assms obtain r p' t' where
      s: "jsmn_parse_primitive parser js len (Some toks) n sc = Some (r, p', t')"
      and r: "0 \<le> r" and res: "p1 = p'" "t1 = bump_super p' t'" "c1 = cnt + 1"
      by (auto simp: jsmn_parse_char_def Let_def split: option.splits if_splits)
    from s have "t' \<noteq> None"
      by (auto simp: jsmn_parse_primitive_def Let_def split: sum.splits prod.splits tokptr.splits)
    with primitive_sizing [OF s r assms(2), of m sc'] prim assms(2) res show ?thesis
      by (auto simp: jsmn_parse_char_def Let_def bump_super_def prim_is_key_def
          split: option.splits)
  next
    case other
    with assms show ?thesis
      by (auto simp: jsmn_parse_char_def Let_def parse_comma_pos split: if_splits)
  qed
qed

lemma sizing_loop:
  assumes "jsmn_parse_loop js len n sc parser tks cnt = Some (r, p', t')"
    and "0 \<le> r" and "tks \<noteq> None" and "pos parser0 = pos parser"
  shows "\<exists>q. jsmn_parse_loop js len m sc' parser0 None cnt = Some (r, q, None) \<and> pos q = pos p'"
  using assms
proof (induction "len - pos parser" arbitrary: parser tks cnt parser0 rule: less_induct)
  case less
  from less.prems(3) obtain toks where tks: "tks = Some toks" by auto
  show ?case
  proof (cases "pos parser < len \<and> js ! pos parser \<noteq> NUL")
    case False
    with less.prems(1,2) tks have "r = cnt" "p' = parser"
      by (auto simp: jsmn_parse_loop.simps [of js len n sc parser] err_defs split: if_splits)
    with False less.prems(4) show ?thesis
      by (auto simp: jsmn_parse_loop.simps [of js len m sc' parser0])
  next
    case True
    from less.prems(1,2) True obtain p1 t1 c1 where
      step: "jsmn_parse_char js len n sc parser tks cnt = Some (Continue p1 t1 c1)"
      and rest: "jsmn_parse_loop js len n sc (p1\<lparr>pos := pos p1 + 1\<rparr>) t1 c1 = Some (r, p', t')"
      by (auto simp: jsmn_parse_loop.simps [of js len n sc parser]
          split: option.splits parse_step.splits dest: jsmn_parse_char_return_neg)
    from sizing_step [OF step [unfolded tks] less.prems(4), of m sc'] obtain p0 where
      step0: "jsmn_parse_char js len m sc' parser0 None cnt = Some (Continue p0 None c1)"
      and pos0: "pos p0 = pos p1" and t1: "t1 \<noteq> None"
      by blast
    from jsmn_parse_char_pos [OF step] True
    have dec: "len - pos (p1\<lparr>pos := pos p1 + 1\<rparr>) < len - pos parser" by auto
    from less.hyps [OF dec rest less.prems(2) t1, of "p0\<lparr>pos := pos p0 + 1\<rparr>"] pos0
    obtain q where "jsmn_parse_loop js len m sc' (p0\<lparr>pos := pos p0 + 1\<rparr>) None c1 = Some (r, q, None)"
      and "pos q = pos p'"
      by auto
    with True less.prems(4) step0 show ?thesis
      by (simp add: jsmn_parse_loop.simps [of js len m sc' parser0])
  qed
qed

text \<open>
  Two fill passes over blocks that agree on the cells allocated so far make the same
  steps as long as neither runs out of cells: every read of the pass is below \<open>toknext\<close>,
  and a cell is fully written before \<open>toknext\<close> passes it.
\<close>

lemma prefix_nth: "take k a = take k b \<Longrightarrow> i < k \<Longrightarrow> a ! i = b ! i"
  by (metis nth_take)

lemma prefix_update: "take k a = take k b \<Longrightarrow> take k (a[i := x]) = take k (b[i := x])"
  by (simp add: take_update_swap)

lemma find_open_prefix: "take k a = take k b \<Longrightarrow> j \<le> k \<Longrightarrow> find_open a j = find_open b j"
proof (induction j)
  case 0
  show ?case by (simp add: find_open.simps)
next
  case (Suc j)
  from Suc.prems have "a ! j = b ! j" by (auto intro: prefix_nth)
  with Suc show ?case
    by (simp add: find_open.simps [of a "Suc j"] find_open.simps [of b "Suc j"])
qed

lemma find_open_container_prefix:
  "take k a = take k b \<Longrightarrow> j \<le> k \<Longrightarrow> find_open_container a j = find_open_container b j"
proof (induction j)
  case 0
  show ?case by (simp add: find_open_container.simps)
next
  case (Suc j)
  from Suc.prems have "a ! j = b ! j" by (auto intro: prefix_nth)
  with Suc show ?case
    by (simp add: find_open_container.simps [of a "Suc j"] find_open_container.simps [of b "Suc j"])
qed

lemma find_open_lt: "find_open a j = Some i \<Longrightarrow> i < j"
proof (induction j)
  case 0
  then show ?case by (simp add: find_open.simps)
next
  case (Suc j)
  then show ?case
    by (auto simp: find_open.simps [of a "Suc j"] split: if_splits)
qed

lemma find_open_container_lt: "find_open_container a j = Some i \<Longrightarrow> i < j"
proof (induction j)
  case 0
  then show ?case by (simp add: find_open_container.simps)
next
  case (Suc j)
  then show ?case
    by (auto simp: find_open_container.simps [of a "Suc j"] split: if_splits)
qed

lemma alloc_open_cell:
  "(t\<lparr>tok_start := s0, tok_end := e, tok_size := z\<rparr>)\<lparr>tok_type := ty, tok_start := s\<rparr> =
     \<lparr>tok_type = ty, tok_start = s, tok_end = e, tok_size = z\<rparr>"
  by (cases t) simp

lemma fill_cell:
  "jsmn_fill_token t ty s e = \<lparr>tok_type = ty, tok_start = s, tok_end = e, tok_size = 0\<rparr>"
  by (cases t) (simp add: jsmn_fill_token_def)

lemma take_Suc_update: "k < length a \<Longrightarrow> take (Suc k) (a[k := x]) = take k a @ [x]"
  by (simp add: take_Suc_conv_app_nth)

lemma super_cell:
  assumes "take k a = take k b" and "- 1 \<le> u" and "u < int k" and "u \<noteq> - 1"
  shows "a ! nat u = b ! nat u" and "nat u < k" and "nat u \<noteq> k"
proof -
  from assms(2-4) show lt: "nat u < k" by auto
  then show "nat u \<noteq> k" by simp
  from prefix_nth [OF assms(1) lt] show "a ! nat u = b ! nat u" .
qed

lemma parse_open_prefix:
  assumes step: "parse_open c n1 False parser (Some a) cnt = Some (Continue p1 t1 c1)"
    and pre: "take (toknext parser) a = take (toknext parser) b"
    and inv: "- 1 \<le> toksuper parser" "toksuper parser < int (toknext parser)"
    and cap: "toknext p1 \<le> n2" "n2 \<le> length b"
  shows "\<exists>a' b'. t1 = Some a'
      \<and> parse_open c n2 False parser (Some b) cnt = Some (Continue p1 (Some b') c1)
      \<and> take (toknext p1) a' = take (toknext p1) b'
      \<and> length a' = length a \<and> length b' = length b
      \<and> toknext p1 = toknext parser + 1 \<and> toksuper p1 = int (toknext parser)"
proof -
  from step have ka: "toknext parser < n1" "toknext parser < length a"
    and p1: "p1 = parser\<lparr>toknext := toknext parser + 1, toksuper := int (toknext parser)\<rparr>"
    by (auto simp: parse_open_def jsmn_alloc_token_def Let_def split: if_splits)
  from p1 cap have kb: "toknext parser < n2" "toknext parser < length b" by auto
  show ?thesis
  proof (cases "toksuper parser = - 1")
    case True
    with step ka kb pre p1 show ?thesis
      by (auto simp: parse_open_def jsmn_alloc_token_def Let_def bump_super_def
          alloc_open_cell take_Suc_update split: if_splits)
  next
    case False
    note sc = super_cell [OF pre inv False]
    with False step ka kb pre p1 show ?thesis
      by (auto simp: parse_open_def jsmn_alloc_token_def Let_def bump_super_def
          alloc_open_cell take_Suc_update split: if_splits)
         (simp_all add: take_update_swap list_update_beyond)
  qed
qed

lemma parse_close_prefix:
  assumes step: "parse_close c parser (Some a) cnt = Some (Continue p1 t1 c1)"
    and pre: "take (toknext parser) a = take (toknext parser) b"
  shows "\<exists>a' b'. t1 = Some a'
      \<and> parse_close c parser (Some b) cnt = Some (Continue p1 (Some b') c1)
      \<and> take (toknext p1) a' = take (toknext p1) b'
      \<and> length a' = length a \<and> length b' = length b
      \<and> toknext p1 = toknext parser \<and> - 1 \<le> toksuper p1
      \<and> toksuper p1 < int (toknext p1)"
proof -
  let ?k = "toknext parser"
  let ?ty = "if c = CHR ''}'' then JSMN_OBJECT else JSMN_ARRAY"
  from step obtain i where i: "find_open a ?k = Some i"
    by (auto simp: parse_close_def split: option.splits)
  from find_open_lt [OF i] have ik: "i < ?k" .
  from find_open_prefix [OF pre order_refl] i have ib: "find_open b ?k = Some i" by simp
  from prefix_nth [OF pre ik] have cell: "b ! i = a ! i" by simp
  define a1 where "a1 = a[i := (a ! i)\<lparr>tok_end := int (pos parser) + 1\<rparr>]"
  define b1 where "b1 = b[i := (a ! i)\<lparr>tok_end := int (pos parser) + 1\<rparr>]"
  from pre have pre1: "take ?k a1 = take ?k b1"
    unfolding a1_def b1_def by (rule prefix_update)
  from ik have "i + 1 \<le> ?k" by simp
  from find_open_prefix [OF pre1 this] have again: "find_open b1 (i + 1) = find_open a1 (i + 1)"
    by simp
  from step i have ty: "tok_type (a ! i) = ?ty"
    by (auto simp: parse_close_def split: if_splits)
  have stepa: "parse_close c parser (Some a) cnt =
      (case find_open a1 (i + 1) of
         None \<Rightarrow> Some (Continue (parser\<lparr>toksuper := - 1\<rparr>) (Some a1) cnt)
       | Some j \<Rightarrow> Some (Continue (parser\<lparr>toksuper := int j\<rparr>) (Some a1) cnt))"
    using i ty by (simp add: parse_close_def Let_def a1_def split: option.splits)
  have stepb: "parse_close c parser (Some b) cnt =
      (case find_open a1 (i + 1) of
         None \<Rightarrow> Some (Continue (parser\<lparr>toksuper := - 1\<rparr>) (Some b1) cnt)
       | Some j \<Rightarrow> Some (Continue (parser\<lparr>toksuper := int j\<rparr>) (Some b1) cnt))"
    using ib ty cell again by (simp add: parse_close_def Let_def b1_def a1_def split: option.splits)
  have len: "length a1 = length a" "length b1 = length b"
    by (simp_all add: a1_def b1_def)
  show ?thesis
  proof (cases "find_open a1 (i + 1)")
    case None
    with step stepa stepb pre1 len show ?thesis by auto
  next
    case (Some j)
    from find_open_lt [OF Some] ik have "int j < int ?k" by simp
    with Some step stepa stepb pre1 len show ?thesis by auto
  qed
qed

lemma parse_comma_prefix:
  assumes pre: "take (toknext parser) a = take (toknext parser) b"
    and inv: "- 1 \<le> toksuper parser" "toksuper parser < int (toknext parser)"
  shows "parse_comma parser (Some a) = parse_comma parser (Some b)"
    and "toknext (parse_comma parser (Some a)) = toknext parser"
    and "- 1 \<le> toksuper (parse_comma parser (Some a))"
    and "toksuper (parse_comma parser (Some a)) < int (toknext parser)"
proof -
  from find_open_container_prefix [OF pre order_refl]
  have f: "find_open_container a (toknext parser) = find_open_container b (toknext parser)" .
  have c: "a ! nat (toksuper parser) = b ! nat (toksuper parser)" if "toksuper parser \<noteq> - 1"
    using super_cell(1) [OF pre inv that] .
  from f c show "parse_comma parser (Some a) = parse_comma parser (Some b)"
    by (auto simp: parse_comma_def split: option.splits)
  show "toknext (parse_comma parser (Some a)) = toknext parser"
    by (simp add: parse_comma_def split: option.splits)
  from inv show "- 1 \<le> toksuper (parse_comma parser (Some a))"
    by (auto simp: parse_comma_def split: option.splits)
  from inv show "toksuper (parse_comma parser (Some a)) < int (toknext parser)"
    by (auto simp: parse_comma_def split: option.splits dest: find_open_container_lt)
qed

lemma prim_is_key_prefix:
  assumes pre: "take (toknext parser) a = take (toknext parser) b"
    and inv: "- 1 \<le> toksuper parser" "toksuper parser < int (toknext parser)"
  shows "prim_is_key parser (Some a) = prim_is_key parser (Some b)"
proof (cases "toksuper parser = - 1")
  case True
  then show ?thesis by (simp add: prim_is_key_def)
next
  case False
  from super_cell(1) [OF pre inv False] show ?thesis by (simp add: prim_is_key_def)
qed

lemma bump_super_prefix:
  assumes pre: "take k a = take k b"
    and inv: "- 1 \<le> toksuper parser" "toksuper parser < int k"
  shows "\<exists>a' b'. bump_super parser (Some a) = Some a' \<and> bump_super parser (Some b) = Some b'
      \<and> take k a' = take k b' \<and> length a' = length a \<and> length b' = length b"
proof (cases "toksuper parser = - 1")
  case True
  with pre show ?thesis by (simp add: bump_super_def)
next
  case False
  from super_cell(1) [OF pre inv False] pre False show ?thesis
    by (simp add: bump_super_def take_update_swap)
qed

lemma jsmn_parse_string_prefix:
  assumes step: "jsmn_parse_string parser js len (Some a) n1 False = Some (r, p1, t1)"
    and ok: "0 \<le> r"
    and pre: "take (toknext parser) a = take (toknext parser) b"
    and cap: "toknext p1 \<le> n2" "n2 \<le> length b"
  shows "\<exists>a' b'. t1 = Some a'
      \<and> jsmn_parse_string parser js len (Some b) n2 False = Some (r, p1, Some b')
      \<and> take (toknext p1) a' = take (toknext p1) b'
      \<and> length a' = length a \<and> length b' = length b
      \<and> toknext p1 = toknext parser + 1 \<and> toksuper p1 = toksuper parser"
proof -
  from step ok obtain q where q: "string_scan js len (pos parser + 1) = Inr q"
    by (cases "string_scan js len (pos parser + 1)")
       (auto simp: jsmn_parse_string_def dest: string_scan_err)
  from step ok q have ka: "toknext parser < n1" "toknext parser < length a"
    and p1: "p1 = parser\<lparr>pos := q, toknext := toknext parser + 1\<rparr>"
    by (auto simp: jsmn_parse_string_def jsmn_alloc_token_def err_defs split: if_splits)
  from p1 cap have kb: "toknext parser < n2" "toknext parser < length b" by auto
  from step ok q ka kb pre p1 show ?thesis
    by (auto simp: jsmn_parse_string_def jsmn_alloc_token_def fill_cell take_Suc_update
        split: if_splits)
qed

lemma jsmn_parse_primitive_prefix:
  assumes step: "jsmn_parse_primitive parser js len (Some a) n1 False = Some (r, p1, t1)"
    and ok: "0 \<le> r"
    and pre: "take (toknext parser) a = take (toknext parser) b"
    and cap: "toknext p1 \<le> n2" "n2 \<le> length b"
  shows "\<exists>a' b'. t1 = Some a'
      \<and> jsmn_parse_primitive parser js len (Some b) n2 False = Some (r, p1, Some b')
      \<and> take (toknext p1) a' = take (toknext p1) b'
      \<and> length a' = length a \<and> length b' = length b
      \<and> toknext p1 = toknext parser + 1 \<and> toksuper p1 = toksuper parser"
proof -
  from step ok obtain d where d: "prim_scan js len (pos parser) = Inr d"
    by (cases "prim_scan js len (pos parser)")
       (auto simp: jsmn_parse_primitive_def dest: prim_scan_err)
  from step ok d have ka: "toknext parser < n1" "toknext parser < length a"
    and p1: "p1 = parser\<lparr>pos := d - 1, toknext := toknext parser + 1\<rparr>"
    by (auto simp: jsmn_parse_primitive_def jsmn_alloc_token_def err_defs split: if_splits)
  from p1 cap have kb: "toknext parser < n2" "toknext parser < length b" by auto
  from step ok d ka kb pre p1 show ?thesis
    by (auto simp: jsmn_parse_primitive_def jsmn_alloc_token_def fill_cell take_Suc_update
        split: if_splits)
qed

lemma fill_step_count:
  assumes "jsmn_parse_char js len n sc parser (Some a) cnt = Some (Continue p1 t1 c1)"
  shows "toknext parser \<le> toknext p1"
    and "c1 - cnt = int (toknext p1) - int (toknext parser)"
  using assms
  by (auto simp: jsmn_parse_char_def Let_def parse_open_def parse_close_def parse_comma_def
      jsmn_parse_string_def jsmn_parse_primitive_def jsmn_alloc_token_def err_defs
      split: if_splits option.splits prod.splits sum.splits
      dest: string_scan_err prim_scan_err)

lemma fill_step_prefix:
  assumes step: "jsmn_parse_char js len n1 False parser (Some a) cnt = Some (Continue p1 t1 c1)"
    and pre: "take (toknext parser) a = take (toknext parser) b"
    and inv: "- 1 \<le> toksuper parser" "toksuper parser < int (toknext parser)"
    and cap: "toknext p1 \<le> n2" "n2 \<le> length b"
  shows "\<exists>a' b'. t1 = Some a'
      \<and> jsmn_parse_char js len n2 False parser (Some b) cnt = Some (Continue p1 (Some b') c1)
      \<and> take (toknext p1) a' = take (toknext p1) b'
      \<and> length b' = length b
      \<and> - 1 \<le> toksuper p1 \<and> toksuper p1 < int (toknext p1)"
proof -
  let ?c = "js ! pos parser"
  consider (opn) "?c = CHR ''{'' \<or> ?c = CHR ''[''"
    | (cls) "?c = CHR ''}'' \<or> ?c = CHR '']''"
    | (str) "?c = dquote"
    | (prim) "?c \<noteq> CHR ''{''" "?c \<noteq> CHR ''[''" "?c \<noteq> CHR ''}''" "?c \<noteq> CHR '']''"
        "?c \<noteq> dquote" "?c \<notin> {CHR 0x09, CHR 0x0D, CHR 0x0A, CHR '' ''}" "?c \<noteq> CHR '':''"
        "?c \<noteq> CHR '',''" "prim_start ?c"
    | (other) "?c \<noteq> CHR ''{''" "?c \<noteq> CHR ''[''" "?c \<noteq> CHR ''}''" "?c \<noteq> CHR '']''"
        "?c \<noteq> dquote"
        "\<not> (?c \<noteq> CHR '':'' \<and> ?c \<noteq> CHR '','' \<and> ?c \<notin> {CHR 0x09, CHR 0x0D, CHR 0x0A, CHR '' ''}
            \<and> prim_start ?c)"
    by blast
  then show ?thesis
  proof cases
    case opn
    with step have "parse_open ?c n1 False parser (Some a) cnt = Some (Continue p1 t1 c1)"
      by (auto simp: jsmn_parse_char_def Let_def)
    from parse_open_prefix [OF this pre inv cap] opn show ?thesis
      by (auto simp: jsmn_parse_char_def Let_def)
  next
    case cls
    with step have "parse_close ?c parser (Some a) cnt = Some (Continue p1 t1 c1)"
      by (auto simp: jsmn_parse_char_def Let_def dquote_def)
    from parse_close_prefix [OF this pre] cls show ?thesis
      by (auto simp: jsmn_parse_char_def Let_def dquote_def)
  next
    case str
    with step obtain r p' t' where
      s: "jsmn_parse_string parser js len (Some a) n1 False = Some (r, p', t')"
      and r: "0 \<le> r" and res: "p1 = p'" "t1 = bump_super p' t'" "c1 = cnt + 1"
      by (auto simp: jsmn_parse_char_def Let_def dquote_def split: option.splits if_splits)
    from jsmn_parse_string_prefix [OF s r pre cap [unfolded res(1)]] obtain a1 b1 where
      sb: "t' = Some a1" "jsmn_parse_string parser js len (Some b) n2 False = Some (r, p', Some b1)"
        "take (toknext p') a1 = take (toknext p') b1" "length b1 = length b"
        "toknext p' = toknext parser + 1" "toksuper p' = toksuper parser"
      by blast
    from inv sb(5,6) have inv': "- 1 \<le> toksuper p'" "toksuper p' < int (toknext p')" by auto
    from bump_super_prefix [OF sb(3) inv'] obtain a2 b2 where
      "bump_super p' (Some a1) = Some a2" "bump_super p' (Some b1) = Some b2"
      "take (toknext p') a2 = take (toknext p') b2" "length b2 = length b1"
      by blast
    with str r res sb inv' show ?thesis
      by (auto simp: jsmn_parse_char_def Let_def dquote_def)
  next
    case prim
    with step obtain r p' t' where
      s: "jsmn_parse_primitive parser js len (Some a) n1 False = Some (r, p', t')"
      and key: "\<not> prim_is_key parser (Some a)"
      and r: "0 \<le> r" and res: "p1 = p'" "t1 = bump_super p' t'" "c1 = cnt + 1"
      by (auto simp: jsmn_parse_char_def Let_def split: option.splits if_splits)
    from key prim_is_key_prefix [OF pre inv] have keyb: "\<not> prim_is_key parser (Some b)" by simp
    from jsmn_parse_primitive_prefix [OF s r pre cap [unfolded res(1)]] obtain a1 b1 where
      sb: "t' = Some a1"
        "jsmn_parse_primitive parser js len (Some b) n2 False = Some (r, p', Some b1)"
        "take (toknext p') a1 = take (toknext p') b1" "length b1 = length b"
        "toknext p' = toknext parser + 1" "toksuper p' = toksuper parser"
      by blast
    from inv sb(5,6) have inv': "- 1 \<le> toksuper p'" "toksuper p' < int (toknext p')" by auto
    from bump_super_prefix [OF sb(3) inv'] obtain a2 b2 where
      "bump_super p' (Some a1) = Some a2" "bump_super p' (Some b1) = Some b2"
      "take (toknext p') a2 = take (toknext p') b2" "length b2 = length b1"
      by blast
    with prim r res sb inv' keyb show ?thesis
      by (auto simp: jsmn_parse_char_def Let_def)
  next
    case other
    note pc = parse_comma_prefix [OF pre inv]
    from other step pre inv pc show ?thesis
      by (auto simp: jsmn_parse_char_def Let_def split: if_splits)
  qed
qed

lemma fill_step_some:
  assumes "jsmn_parse_char js len n sc parser (Some a) cnt = Some (Continue p1 t1 c1)"
  shows "t1 \<noteq> None"
  using sizing_step [OF assms refl] by blast

lemma fill_loop_count:
  assumes "jsmn_parse_loop js len n sc parser tks cnt = Some (r, p', t')"
    and "0 \<le> r" and "tks \<noteq> None" and "cnt = int (toknext parser)"
  shows "r = int (toknext p') \<and> toknext parser \<le> toknext p' \<and> t' \<noteq> None"
  using assms
proof (induction "len - pos parser" arbitrary: parser tks cnt rule: less_induct)
  case less
  from less.prems(3) obtain a where tks: "tks = Some a" by auto
  show ?case
  proof (cases "pos parser < len \<and> js ! pos parser \<noteq> NUL")
    case False
    with less.prems tks show ?thesis
      by (auto simp: jsmn_parse_loop.simps [of js len n sc parser] err_defs split: if_splits)
  next
    case True
    from less.prems(1,2) True obtain p1 t1 c1 where
      step: "jsmn_parse_char js len n sc parser tks cnt = Some (Continue p1 t1 c1)"
      and rest: "jsmn_parse_loop js len n sc (p1\<lparr>pos := pos p1 + 1\<rparr>) t1 c1 = Some (r, p', t')"
      by (auto simp: jsmn_parse_loop.simps [of js len n sc parser]
          split: option.splits parse_step.splits dest: jsmn_parse_char_return_neg)
    from fill_step_count [OF step [unfolded tks]] less.prems(4)
    have mono: "toknext parser \<le> toknext p1" and c1: "c1 = int (toknext p1)" by auto
    from fill_step_some [OF step [unfolded tks]] have t1: "t1 \<noteq> None" .
    from jsmn_parse_char_pos [OF step] True
    have dec: "len - pos (p1\<lparr>pos := pos p1 + 1\<rparr>) < len - pos parser" by auto
    from less.hyps [OF dec rest less.prems(2) t1] c1 mono show ?thesis by auto
  qed
qed

lemma fill_loop_prefix:
  assumes "jsmn_parse_loop js len n1 False parser (Some a) cnt = Some (r, p', t')"
    and "0 \<le> r"
    and "take (toknext parser) a = take (toknext parser) b"
    and "- 1 \<le> toksuper parser" and "toksuper parser < int (toknext parser)"
    and "cnt = int (toknext parser)"
    and "nat r \<le> n2" and "n2 \<le> length b"
  shows "\<exists>a' b'. t' = Some a'
      \<and> jsmn_parse_loop js len n2 False parser (Some b) cnt = Some (r, p', Some b')
      \<and> take (nat r) a' = take (nat r) b' \<and> length b' = length b"
  using assms
proof (induction "len - pos parser" arbitrary: parser a b cnt rule: less_induct)
  case less
  note run = less.prems(1) and ok = less.prems(2) and pre = less.prems(3)
    and inv = less.prems(4,5) and cnt = less.prems(6) and cap = less.prems(7,8)
  show ?case
  proof (cases "pos parser < len \<and> js ! pos parser \<noteq> NUL")
    case False
    from find_open_prefix [OF pre order_refl]
    have same: "find_open b (toknext parser) = find_open a (toknext parser)" by simp
    from False run ok have res: "r = cnt" "p' = parser" "t' = Some a"
      and none: "find_open a (toknext parser) = None"
      by (auto simp: jsmn_parse_loop.simps [of js len n1 False parser] err_defs split: if_splits)
    from False same none res cnt pre show ?thesis
      by (auto simp: jsmn_parse_loop.simps [of js len n2 False parser])
  next
    case True
    from run ok True obtain p1 t1 c1 where
      step: "jsmn_parse_char js len n1 False parser (Some a) cnt = Some (Continue p1 t1 c1)"
      and rest: "jsmn_parse_loop js len n1 False (p1\<lparr>pos := pos p1 + 1\<rparr>) t1 c1 = Some (r, p', t')"
      by (auto simp: jsmn_parse_loop.simps [of js len n1 False parser]
          split: option.splits parse_step.splits dest: jsmn_parse_char_return_neg)
    from fill_step_count [OF step] cnt have c1: "c1 = int (toknext p1)" by auto
    from fill_step_some [OF step] have t1: "t1 \<noteq> None" .
    from fill_loop_count [OF rest ok t1] c1 have "toknext p1 \<le> nat r" by auto
    with cap have cap1: "toknext p1 \<le> n2" by simp
    from fill_step_prefix [OF step pre inv cap1 cap(2)] obtain a1 b1 where
      sb: "t1 = Some a1"
        "jsmn_parse_char js len n2 False parser (Some b) cnt = Some (Continue p1 (Some b1) c1)"
        "take (toknext p1) a1 = take (toknext p1) b1" "length b1 = length b"
        "- 1 \<le> toksuper p1" "toksuper p1 < int (toknext p1)"
      by blast
    from jsmn_parse_char_pos [OF step] True
    have dec: "len - pos (p1\<lparr>pos := pos p1 + 1\<rparr>) < len - pos parser" by auto
    from less.hyps [OF dec rest [unfolded sb(1)] ok, of b1] sb c1 cap
    obtain a' b' where "t' = Some a'"
      "jsmn_parse_loop js len n2 False (p1\<lparr>pos := pos p1 + 1\<rparr>) (Some b1) c1 = Some (r, p', Some b')"
      "take (nat r) a' = take (nat r) b'" "length b' = length b"
      by auto
    with True sb(2) show ?thesis
      by (auto simp: jsmn_parse_loop.simps [of js len n2 False parser])
  qed
qed

text \<open>
  Suppose the fill pass (\<open>parsemode_sizecheck = 0\<close>) over some block of cells accepts the
  buffer, that is, returns a count and no error. Then the sizing pass as \<^verbatim>\<open>jsmnreader_load\<close>
  runs it (null token pointer, \<open>num_tokens = 2\<close>, \<open>parsemode_sizecheck = 1\<close>) returns the
  same count; the fill pass has produced exactly that many token records; a fill pass
  over any block of at least that many cells, whatever the cells held before, returns the
  same count and the same token records; and \<^verbatim>\<open>jsmnreader_load\<close>, which sizes first and then
  fills a block of exactly that size, returns \<^verbatim>\<open>JSMN_SUCCESS\<close> with exactly these records.
\<close>

lemma accepted_passes_agree:
  assumes fill: "jsmn_parse jsmn_init js len (Some toks) num_tokens False = Some (count, parser', tks')"
    and accepted: "0 \<le> count"
  shows "(\<exists>p. jsmn_parse jsmn_init js len None 2 True = Some (count, p, None))
       \<and> (\<exists>toks'. tks' = Some toks' \<and> toknext parser' = nat count
            \<and> (\<forall>toks2 n2. nat count \<le> n2 \<and> n2 \<le> length toks2 \<longrightarrow>
                  (\<exists>toks2'. jsmn_parse jsmn_init js len (Some toks2) n2 False =
                               Some (count, parser', Some toks2')
                     \<and> length toks2' = length toks2
                     \<and> take (nat count) toks2' = take (nat count) toks'))
            \<and> jsmnreader_load (glibc_heap fr) js len (jsmnreader_init (glibc_heap fr)) =
                Some (JSMN_SUCCESS,
                      \<lparr>txt_buf = js, txt_size = len, tokens = Some (take (nat count) toks'),
                       tokens_count = nat count\<rparr>))"
proof -
  from fill have run: "jsmn_parse_loop js len num_tokens False jsmn_init (Some toks) 0 =
      Some (count, parser', tks')"
    by (simp add: jsmn_parse_def jsmn_init_def)
  from sizing_loop [OF run accepted _ refl, of 2 True]
  obtain p where sizing: "jsmn_parse jsmn_init js len None 2 True = Some (count, p, None)"
    by (auto simp: jsmn_parse_def jsmn_init_def)
  from fill_loop_count [OF run accepted]
  have cnt: "toknext parser' = nat count" and some: "tks' \<noteq> None"
    by (auto simp: jsmn_init_def)
  from some obtain toks' where toks': "tks' = Some toks'" by auto
  have indep: "\<exists>toks2'. jsmn_parse jsmn_init js len (Some toks2) n2 False =
                 Some (count, parser', Some toks2')
               \<and> length toks2' = length toks2
               \<and> take (nat count) toks2' = take (nat count) toks'"
    if "nat count \<le> n2" "n2 \<le> length toks2" for toks2 n2
    using fill_loop_prefix [OF run accepted _ _ _ _ that] toks'
    by (auto simp: jsmn_parse_def jsmn_init_def)
  define block where "block = map fr [0..<nat count]"
  have "nat count \<le> nat count" "nat count \<le> length block" by (simp_all add: block_def)
  from indep [OF this] obtain filled where
    second: "jsmn_parse jsmn_init js len (Some block) (nat count) False =
        Some (count, parser', Some filled)"
    and len: "length filled = nat count"
    and same: "take (nat count) filled = take (nat count) toks'"
    by (auto simp: block_def)
  from len same have filled: "filled = take (nat count) toks'" by simp
  have realloc: "realloc_tokens (glibc_heap fr) None (nat count) = Some block"
    by (simp add: realloc_tokens_def glibc_heap_def block_def)
  have load: "jsmnreader_load (glibc_heap fr) js len (jsmnreader_init (glibc_heap fr)) =
      Some (JSMN_SUCCESS,
            \<lparr>txt_buf = js, txt_size = len, tokens = Some (take (nat count) toks'),
             tokens_count = nat count\<rparr>)"
  proof -
    have m0: "malloc0_null (glibc_heap fr) = False" by (simp add: glibc_heap_def)
    have first_ptr: "realloc_tokens (glibc_heap fr) (Some []) 0 = None"
      by (simp add: realloc_tokens_def glibc_heap_def)
    from accepted have no_error: "count \<noteq> JSMN_ERROR_NOMEM" "count \<noteq> JSMN_ERROR_INVAL"
      "count \<noteq> JSMN_ERROR_PART"
      by (simp_all add: err_defs)
    from sizing second accepted realloc filled m0 first_ptr no_error show ?thesis
      by (simp add: jsmnreader_load_def jsmnreader_init_def Let_def)
  qed
  from sizing cnt toks' indep load show ?thesis by blast
qed

lemma accepted_passes_agree_two_pairs:
  "(\<exists>p. jsmn_parse jsmn_init doc_two_pairs 13 None 2 True = Some (5, p, None))
   \<and> (\<exists>filled. jsmn_parse jsmn_init doc_two_pairs 13 (Some (map blank [0..<5])) 5 False =
                  Some (5, \<lparr>pos = 13, toknext = 5, toksuper = - 1\<rparr>, Some filled)
         \<and> filled = cells reader_two_pairs)
   \<and> jsmnreader_load (glibc_heap blank) doc_two_pairs 13 (jsmnreader_init (glibc_heap blank)) =
       Some (JSMN_SUCCESS, reader_two_pairs)"
proof -
  have ample: "jsmn_parse jsmn_init doc_two_pairs 13 (Some (map blank [0..<8])) 8 False =
      Some (5, \<lparr>pos = 13, toknext = 5, toksuper = - 1\<rparr>,
            Some (cells reader_two_pairs @ [blank 5, blank 6, blank 7]))"
    by (simp add: doc_two_pairs_def reader_two_pairs_def cells_def parse_eval blank_def)
  have five: "(0 :: int) \<le> 5" by simp
  note facts = accepted_passes_agree [OF ample five, of blank]
  from facts have sizing: "\<exists>p. jsmn_parse jsmn_init doc_two_pairs 13 None 2 True = Some (5, p, None)"
    by blast
  have cells5: "take 5 (cells reader_two_pairs @ [blank 5, blank 6, blank 7]) =
      cells reader_two_pairs"
    by (simp add: reader_two_pairs_def cells_def)
  from facts have "\<forall>toks2 n2. nat 5 \<le> n2 \<and> n2 \<le> length toks2 \<longrightarrow>
      (\<exists>toks2'. jsmn_parse jsmn_init doc_two_pairs 13 (Some toks2) n2 False =
                   Some (5, \<lparr>pos = 13, toknext = 5, toksuper = - 1\<rparr>, Some toks2')
         \<and> length toks2' = length toks2
         \<and> take (nat 5) toks2' =
             take (nat 5) (cells reader_two_pairs @ [blank 5, blank 6, blank 7]))"
    by blast
  then have "\<exists>toks2'. jsmn_parse jsmn_init doc_two_pairs 13 (Some (map blank [0..<5])) 5 False =
                   Some (5, \<lparr>pos = 13, toknext = 5, toksuper = - 1\<rparr>, Some toks2')
         \<and> length toks2' = length (map blank [0..<5])
         \<and> take (nat 5) toks2' =
             take (nat 5) (cells reader_two_pairs @ [blank 5, blank 6, blank 7])"
    by (elim allE [of _ "map blank [0..<5]"] allE [of _ 5]) simp
  then have exact: "\<exists>filled. jsmn_parse jsmn_init doc_two_pairs 13 (Some (map blank [0..<5])) 5 False =
                  Some (5, \<lparr>pos = 13, toknext = 5, toksuper = - 1\<rparr>, Some filled)
         \<and> filled = cells reader_two_pairs"
    using cells5 by auto
  from facts have load:
    "jsmnreader_load (glibc_heap blank) doc_two_pairs 13 (jsmnreader_init (glibc_heap blank)) =
       Some (JSMN_SUCCESS,
             \<lparr>txt_buf = doc_two_pairs, txt_size = 13,
              tokens = Some (take (nat 5) (cells reader_two_pairs @ [blank 5, blank 6, blank 7])),
              tokens_count = nat 5\<rparr>)"
    by blast
  have "\<lparr>txt_buf = doc_two_pairs, txt_size = 13,
         tokens = Some (take (nat 5) (cells reader_two_pairs @ [blank 5, blank 6, blank 7])),
         tokens_count = nat 5\<rparr> = reader_two_pairs"
    by (simp add: reader_two_pairs_def cells_def)
  with load sizing exact show ?thesis by simp
qed

section \<open>JSON texts\<close>













section \<open>Valid texts are accepted\<close>











text \<open>The buffer \<open>js\<close> holds the text \<open>s\<close> from position \<open>p\<close> on.\<close>

definition has_at :: "string \<Rightarrow> nat \<Rightarrow> string \<Rightarrow> bool" where
  "has_at js p s = (take (length s) (drop p js) = s)"

lemma has_at_Nil [simp]: "has_at js p []"
  by (simp add: has_at_def)










text \<open>
  What the proof keeps track of in the token array. Two arrays have the same shape below
  \<open>k\<close> when the cells below \<open>k\<close> agree in type, start and end (the sizes may differ); the
  cells from \<open>i\<close> up to \<open>k\<close> are closed when none of them is an open token; a container \<open>i\<close>
  is the innermost open token of the first \<open>k\<close> cells.
\<close>

definition same_shape :: "nat \<Rightarrow> jsmntok list \<Rightarrow> jsmntok list \<Rightarrow> bool" where
  "same_shape k a b = (length b = length a
     \<and> (\<forall>j<k. tok_type (b ! j) = tok_type (a ! j) \<and> tok_start (b ! j) = tok_start (a ! j)
            \<and> tok_end (b ! j) = tok_end (a ! j)))"

definition closed_between :: "jsmntok list \<Rightarrow> nat \<Rightarrow> nat \<Rightarrow> bool" where
  "closed_between a i k = (\<forall>j. i \<le> j \<and> j < k \<longrightarrow> \<not> is_open (a ! j))"




lemma same_shape_refl [simp]: "same_shape k a a"
  by (simp add: same_shape_def)

















lemma closed_between_empty [simp]: "closed_between a k k"
  by (auto simp: closed_between_def)













































end
